theory Spec2Isabelle
  imports Main "HOL-Library.Sublist"
begin

section \<open>Data model (package.h, dep\_resolver.h)\<close>

text \<open>
  \<^verbatim>\<open>struct PackageInfo\<close> (package.h). The resolver, the upgrade scan and the build
  pipeline read and write only the fields below; the remaining fields of the struct
  (description, url, sizes, dates, votes, ...) are carried along unchanged and are left
  out. A default-constructed \<^verbatim>\<open>PackageInfo{}\<close> has every string and vector empty.
\<close>

record PackageInfo =
  name :: string
  version :: string
  pkgbase :: string
  depends :: "string list"
  makedepends :: "string list"
  provides :: "string list"

definition empty_package :: PackageInfo where
  "empty_package =
     \<lparr>name = [], version = [], pkgbase = [], depends = [], makedepends = [], provides = []\<rparr>"

text \<open>\<^verbatim>\<open>struct DepResolution\<close> (dep\_resolver.h): what \<^verbatim>\<open>resolve\<close> returns.\<close>

record DepResolution =
  ok :: bool
  error :: string
  aur_build_order :: "PackageInfo list"
  repo_deps :: "string list"
  satisfied_deps :: "string list"

text \<open>
  The private members of \<^verbatim>\<open>class DepResolver\<close>. The trailing underscore of a member
  name (\<^verbatim>\<open>visited_\<close>, \<^verbatim>\<open>in_stack_\<close>, ...) is written as a prime. \<^verbatim>\<open>std::set\<close> is a
  set, \<^verbatim>\<open>std::map\<close> a partial map, \<^verbatim>\<open>std::vector\<close> a list. The member \<^verbatim>\<open>log_\<close> is
  the caller's callback; \<open>log'\<close> records the messages handed to it, in order (both
  callers pass a callback).
\<close>

record DepResolver =
  visited' :: "string set"
  in_stack' :: "string set"
  build_order' :: "PackageInfo list"
  repo_deps' :: "string list"
  satisfied_deps' :: "string list"
  error' :: string
  aur_cache' :: "string \<rightharpoonup> PackageInfo"
  provides_map' :: "string \<rightharpoonup> string"
  log' :: "string list"

text \<open>
  The collaborators the resolver holds by reference: the remote directory
  (\<^verbatim>\<open>AurClient::info\<close>, \<^verbatim>\<open>info_batch\<close>, \<^verbatim>\<open>search_provides\<close>, which answer from the
  network) and the local database (\<^verbatim>\<open>AlpmWrapper::is_dep_satisfied\<close>,
  \<^verbatim>\<open>is_dep_in_repos\<close>, which answer from libalpm). Their answers are inputs of the
  resolver; during one traversal each is a function of its argument. \<^verbatim>\<open>info\<close> returns
  a package with an empty name when the directory has no result.
\<close>

record collaborators =
  info :: "string \<Rightarrow> PackageInfo"
  info_batch :: "string list \<Rightarrow> PackageInfo list"
  search_provides :: "string \<Rightarrow> PackageInfo list"
  is_dep_satisfied :: "string \<Rightarrow> bool"
  is_dep_in_repos :: "string \<Rightarrow> bool"

section \<open>The resolver (dep\_resolver.cpp)\<close>

text \<open>\<^verbatim>\<open>strip_version\<close>: the prefix before the first of \<^verbatim>\<open>> < =\<close>, or the whole string.\<close>

definition strip_version :: "string \<Rightarrow> string" where
  "strip_version depstring = takeWhile (\<lambda>c. c \<notin> set ''><='') depstring"

text \<open>\<^verbatim>\<open>std::to_string\<close> on a \<^verbatim>\<open>size_t\<close>: the decimal digits.\<close>

fun to_string :: "nat \<Rightarrow> string" where
  "to_string n =
     (if n < 10 then [''0123456789'' ! n]
      else to_string (n div 10) @ [''0123456789'' ! (n mod 10)])"

declare to_string.simps [simp del]

text \<open>\<^verbatim>\<open>if (log_) log_(msg)\<close>.\<close>

definition log_msg :: "string \<Rightarrow> DepResolver \<Rightarrow> DepResolver" where
  "log_msg msg s = s\<lparr>log' := log' s @ [msg]\<rparr>"

text \<open>
  Lines 57-69 of \<^verbatim>\<open>dfs\<close>: the package comes from \<^verbatim>\<open>aur_cache_\<close>, or from
  \<^verbatim>\<open>aur_.info\<close> and is then cached under the requested name; \<open>None\<close> when the
  directory returns an empty name.
\<close>

definition fetch_info ::
  "collaborators \<Rightarrow> string \<Rightarrow> DepResolver \<Rightarrow> (PackageInfo \<times> DepResolver) option" where
  "fetch_info E nm s =
     (case aur_cache' s nm of
        Some cached \<Rightarrow> Some (cached, s)
      | None \<Rightarrow>
          (let pkg = info E nm in
           if name pkg = [] then None
           else Some (pkg, s\<lparr>aur_cache' := (aur_cache' s)(nm \<mapsto> pkg)\<rparr>)))"

text \<open>
  Lines 82-90: the first loop over \<^verbatim>\<open>all_deps\<close> collects the bare names to fetch in
  one batch. It changes no member.
\<close>

fun unknown_names :: "collaborators \<Rightarrow> DepResolver \<Rightarrow> string list \<Rightarrow> string list" where
  "unknown_names E s [] = []"
| "unknown_names E s (dep # deps) =
     (let dep_name = strip_version dep in
      if dep_name \<in> visited' s \<or> dep_name \<in> in_stack' s then unknown_names E s deps
      else if is_dep_satisfied E dep then unknown_names E s deps
      else if is_dep_in_repos E dep then unknown_names E s deps
      else if aur_cache' s dep_name \<noteq> None then unknown_names E s deps
      else dep_name # unknown_names E s deps)"

text \<open>Lines 95-97: every package of the batch is cached under its own name.\<close>

fun cache_batch :: "PackageInfo list \<Rightarrow> (string \<rightharpoonup> PackageInfo) \<Rightarrow> (string \<rightharpoonup> PackageInfo)" where
  "cache_batch [] cache = cache"
| "cache_batch (p # batch) cache = cache_batch batch (cache(name p \<mapsto> p))"

text \<open>Lines 82-98: the first loop and the batch fetch.\<close>

definition prefetch :: "collaborators \<Rightarrow> string list \<Rightarrow> DepResolver \<Rightarrow> DepResolver" where
  "prefetch E all_deps s =
     (let unknown = unknown_names E s all_deps in
      if unknown \<noteq> [] then
        (let s1 = log_msg (''Batch-fetching '' @ to_string (length unknown) @ '' AUR dependencies...'') s
         in s1\<lparr>aur_cache' := cache_batch (info_batch E unknown) (aur_cache' s1)\<rparr>)
      else s)"

text \<open>
  \<^verbatim>\<open>find_provider\<close>: the memoized answer if there is one (also a negative one, the
  empty string); otherwise the first package of the search result one of whose
  \<^verbatim>\<open>provides\<close> entries has the bare name \<^verbatim>\<open>dep_name\<close>. It returns the provider's name
  (empty: none) and the updated members.
\<close>

definition provides_dep :: "string \<Rightarrow> PackageInfo \<Rightarrow> bool" where
  "provides_dep dep_name p = list_ex (\<lambda>prov. strip_version prov = dep_name) (provides p)"

definition find_provider ::
  "collaborators \<Rightarrow> string \<Rightarrow> DepResolver \<Rightarrow> string \<times> DepResolver" where
  "find_provider E dep_name s =
     (case provides_map' s dep_name of
        Some memo \<Rightarrow> (memo, s)
      | None \<Rightarrow>
          (let s1 = log_msg (''Searching AUR for provider of '' @ dep_name @ ''...'') s in
           case find (provides_dep dep_name) (search_provides E dep_name) of
             Some p \<Rightarrow>
               (let s2 = log_msg (''Found: '' @ name p @ '' provides '' @ dep_name) s1 in
                (name p, s2\<lparr>provides_map' := (provides_map' s2)(dep_name \<mapsto> name p),
                            aur_cache' := (aur_cache' s2)(name p \<mapsto> p)\<rparr>))
           | None \<Rightarrow> ([], s1\<lparr>provides_map' := (provides_map' s1)(dep_name \<mapsto> [])\<rparr>)))"

text \<open>Line 113: \<^verbatim>\<open>aur_cache_.count(dep_name) && !aur_cache_[dep_name].name.empty()\<close>.\<close>

definition cached_package :: "DepResolver \<Rightarrow> string \<Rightarrow> bool" where
  "cached_package s dep_name =
     (case aur_cache' s dep_name of None \<Rightarrow> False | Some p \<Rightarrow> name p \<noteq> [])"

text \<open>Lines 128-132: the package is marked visited, leaves the stack and is appended.\<close>

definition finish :: "string \<Rightarrow> PackageInfo \<Rightarrow> DepResolver \<Rightarrow> DepResolver" where
  "finish nm pkg s =
     log_msg (''Resolved: '' @ nm)
       (s\<lparr>visited' := insert nm (visited' s),
          in_stack' := in_stack' s - {nm},
          build_order' := build_order' s @ [pkg]\<rparr>)"

text \<open>Lines 53-55: the name enters the stack and the fetch is announced.\<close>

definition enter_stack :: "string \<Rightarrow> DepResolver \<Rightarrow> DepResolver" where
  "enter_stack nm s =
     log_msg (''Fetching AUR info for '' @ nm @ ''...'') (s\<lparr>in_stack' := insert nm (in_stack' s)\<rparr>)"

text \<open>Lines 64-65: the directory has no such package.\<close>

definition not_found :: "string \<Rightarrow> DepResolver \<Rightarrow> DepResolver" where
  "not_found nm s =
     s\<lparr>in_stack' := in_stack' s - {nm}, error' := ''Package not found in AUR: '' @ nm\<rparr>"

text \<open>Lines 72-74: the package is installed at exactly this version.\<close>

definition skip_installed :: "string \<Rightarrow> PackageInfo \<Rightarrow> DepResolver \<Rightarrow> DepResolver" where
  "skip_installed nm pkg s =
     (let s1 = log_msg (''Skipping '' @ nm @ '' ('' @ version pkg @ '' already installed)'') s
      in s1\<lparr>visited' := insert nm (visited' s1), in_stack' := in_stack' s1 - {nm}\<rparr>)"

text \<open>
  \<^verbatim>\<open>dfs\<close> returns its \<^verbatim>\<open>bool\<close> and the members as it leaves them. The recursion of
  the source is bounded by nothing but the directory's answers, so the model takes
  fuel: \<open>None\<close> is "no result within this depth". \<open>classify\<close> is the second loop over
  \<^verbatim>\<open>all_deps\<close> (lines 100-126), which calls \<^verbatim>\<open>dfs\<close> for a dependency that is neither
  satisfied locally nor available in a repository.
\<close>

fun dfs :: "collaborators \<Rightarrow> nat \<Rightarrow> string \<Rightarrow> DepResolver \<Rightarrow> (bool \<times> DepResolver) option"
  and classify ::
    "collaborators \<Rightarrow> nat \<Rightarrow> string \<Rightarrow> string list \<Rightarrow> DepResolver \<Rightarrow> (bool \<times> DepResolver) option"
where
  "dfs E 0 nm s = None"
| "dfs E (Suc k) nm s =
     (if nm \<in> visited' s then Some (True, s)
      else if nm \<in> in_stack' s then
        Some (False, s\<lparr>error' := ''Circular dependency detected: '' @ nm\<rparr>)
      else
        (case fetch_info E nm (enter_stack nm s) of
           None \<Rightarrow> Some (False, not_found nm (enter_stack nm s))
         | Some (pkg, s2) \<Rightarrow>
             if is_dep_satisfied E (name pkg @ ''='' @ version pkg) then
               Some (True, skip_installed nm pkg s2)
             else
               (let all_deps = depends pkg @ makedepends pkg in
                case classify E k nm all_deps (prefetch E all_deps s2) of
                  None \<Rightarrow> None
                | Some (b, s3) \<Rightarrow> if b then Some (True, finish nm pkg s3) else Some (False, s3))))"
| "classify E k nm [] s = Some (True, s)"
| "classify E k nm (dep # deps) s =
     (let dep_name = strip_version dep in
      if is_dep_satisfied E dep then
        classify E k nm deps (s\<lparr>satisfied_deps' := satisfied_deps' s @ [dep]\<rparr>)
      else if is_dep_in_repos E dep then
        classify E k nm deps (s\<lparr>repo_deps' := repo_deps' s @ [dep]\<rparr>)
      else if cached_package s dep_name then
        (case dfs E k dep_name s of
           None \<Rightarrow> None
         | Some (b, s1) \<Rightarrow> if b then classify E k nm deps s1 else Some (False, s1))
      else
        (case find_provider E dep_name s of
           (provider, s1) \<Rightarrow>
             if provider \<noteq> [] then
               (case dfs E k provider s1 of
                  None \<Rightarrow> None
                | Some (b, s2) \<Rightarrow> if b then classify E k nm deps s2 else Some (False, s2))
             else
               Some (False, s1\<lparr>error' := ''Dependency not found anywhere: '' @ dep
                                          @ '' (required by '' @ nm @ '')''\<rparr>)))"

text \<open>
  Lines 24-33 of \<^verbatim>\<open>resolve\<close>: the loop over \<^verbatim>\<open>build_order_\<close> with the set
  \<^verbatim>\<open>seen_bases\<close>, the vector \<^verbatim>\<open>deduped\<close> and the messages logged for the packages
  it drops.
\<close>

definition build_unit :: "PackageInfo \<Rightarrow> string" where
  "build_unit p = (if pkgbase p = [] then name p else pkgbase p)"

definition skip_message :: "PackageInfo \<Rightarrow> string" where
  "skip_message p =
     ''Skipping '' @ name p @ '' (split package, already building '' @ build_unit p @ '')''"

fun dedupe ::
  "PackageInfo list \<Rightarrow> string set \<Rightarrow> PackageInfo list \<Rightarrow> string list
     \<Rightarrow> PackageInfo list \<times> string list" where
  "dedupe [] seen_bases deduped lg = (deduped, lg)"
| "dedupe (p # ps) seen_bases deduped lg =
     (let base = build_unit p in
      if base \<notin> seen_bases then dedupe ps (insert base seen_bases) (deduped @ [p]) lg
      else dedupe ps seen_bases deduped (lg @ [skip_message p]))"

text \<open>Lines 10-18 of \<^verbatim>\<open>resolve\<close>: every member is cleared, whatever it held.\<close>

definition clear_members :: "DepResolver \<Rightarrow> DepResolver" where
  "clear_members s =
     s\<lparr>log' := [], visited' := {}, in_stack' := {}, build_order' := [], repo_deps' := [],
       satisfied_deps' := [], error' := [], aur_cache' := Map.empty,
       provides_map' := Map.empty\<rparr>"

text \<open>
  Line 29: \<^verbatim>\<open>deduped.push_back(std::move(p))\<close> moves a kept package out of
  \<^verbatim>\<open>build_order_\<close>. What stays in the vector is the moved-from element, whose strings
  and vectors the standard library leaves empty; a dropped package stays as it is.
\<close>

fun moved_from :: "PackageInfo list \<Rightarrow> string set \<Rightarrow> PackageInfo list" where
  "moved_from [] seen_bases = []"
| "moved_from (p # ps) seen_bases =
     (let base = build_unit p in
      if base \<notin> seen_bases then empty_package # moved_from ps (insert base seen_bases)
      else p # moved_from ps seen_bases)"

text \<open>
  \<^verbatim>\<open>resolve\<close> returns the \<^verbatim>\<open>DepResolution\<close> and the members as the call leaves them:
  \<^verbatim>\<open>build_order_\<close> with the kept packages moved out of it, and the two vectors moved
  into the result empty (the next call clears all of them anyway). \<open>fuel\<close> bounds the
  depth of the recursion of \<^verbatim>\<open>dfs\<close>.
\<close>

definition resolve ::
  "collaborators \<Rightarrow> nat \<Rightarrow> string \<Rightarrow> DepResolver \<Rightarrow> (DepResolution \<times> DepResolver) option" where
  "resolve E fuel nm s0 =
     (let s = log_msg (''Resolving dependencies for '' @ nm @ ''...'') (clear_members s0) in
      case dfs E fuel nm s of
        None \<Rightarrow> None
      | Some (b, s1) \<Rightarrow>
          (case dedupe (build_order' s1) {} [] (log' s1) of
             (deduped, lg) \<Rightarrow>
               Some (\<lparr>ok = b, error = error' s1, aur_build_order = deduped,
                      repo_deps = repo_deps' s1, satisfied_deps = satisfied_deps' s1\<rparr>,
                     s1\<lparr>log' := lg, build_order' := moved_from (build_order' s1) {},
                        repo_deps' := [], satisfied_deps' := []\<rparr>)))"

text \<open>A freshly constructed \<^verbatim>\<open>DepResolver\<close>: every container empty.\<close>

definition fresh_resolver :: DepResolver where
  "fresh_resolver =
     \<lparr>visited' = {}, in_stack' = {}, build_order' = [], repo_deps' = [], satisfied_deps' = [],
      error' = [], aur_cache' = Map.empty, provides_map' = Map.empty, log' = []\<rparr>"

section \<open>Example collaborators\<close>

text \<open>
  A remote directory that holds a finite list of packages and answers the three
  queries from it, beside a local database given by its two predicates. The examples
  below are built with it.
\<close>

definition pkg :: "string \<Rightarrow> string \<Rightarrow> string list \<Rightarrow> PackageInfo" where
  "pkg nm ver deps =
     \<lparr>name = nm, version = ver, pkgbase = [], depends = deps, makedepends = [], provides = []\<rparr>"

definition directory ::
  "PackageInfo list \<Rightarrow> (string \<Rightarrow> bool) \<Rightarrow> (string \<Rightarrow> bool) \<Rightarrow> collaborators" where
  "directory db sat repo =
     \<lparr>info = (\<lambda>nm. case find (\<lambda>p. name p = nm) db of Some p \<Rightarrow> p | None \<Rightarrow> empty_package),
      info_batch = (\<lambda>names. filter (\<lambda>p. name p \<in> set names) db),
      search_provides = (\<lambda>nm. filter (provides_dep nm) db),
      is_dep_satisfied = sat,
      is_dep_in_repos = repo\<rparr>"

text \<open>Members left behind by some earlier call, for the independence of two runs.\<close>

definition ex_prior :: DepResolver where
  "ex_prior =
     \<lparr>visited' = {''a''}, in_stack' = {''b''}, build_order' = [pkg ''a'' ''1'' []],
      repo_deps' = [''x''], satisfied_deps' = [''y''], error' = ''old error'',
      aur_cache' = [''a'' \<mapsto> pkg ''a'' ''1'' []], provides_map' = [''v'' \<mapsto> ''a''],
      log' = [''old'']\<rparr>"

text \<open>\<open>z\<close> is installed at exactly the version the directory reports.\<close>

definition ex_installed :: collaborators where
  "ex_installed =
     directory [pkg ''z'' ''1.0'' [''libz'']] (\<lambda>d. d = ''z=1.0'') (\<lambda>d. False)"

text \<open>Two packages of one build unit \<open>foo\<close>.\<close>

definition ex_split :: collaborators where
  "ex_split =
     directory
       [(pkg ''foo-bin'' ''1'' [''foo-doc''])\<lparr>pkgbase := ''foo''\<rparr>,
        (pkg ''foo-doc'' ''1'' [])\<lparr>pkgbase := ''foo''\<rparr>]
       (\<lambda>d. False) (\<lambda>d. False)"

section \<open>Notions the properties are stated with\<close>

text \<open>
  Where the second loop recurses for a dependency that is neither satisfied nor in a
  repository (lines 113-122): into the bare name when the cache has a package under it,
  otherwise into the provider \<^verbatim>\<open>find_provider\<close> returns; \<open>None\<close> when there is none.
\<close>

definition recursion_target ::
  "collaborators \<Rightarrow> string \<Rightarrow> DepResolver \<Rightarrow> (string \<times> DepResolver) option" where
  "recursion_target E dep s =
     (if cached_package s (strip_version dep) then Some (strip_version dep, s)
      else case find_provider E (strip_version dep) s of
             (provider, s1) \<Rightarrow> if provider \<noteq> [] then Some (provider, s1) else None)"

text \<open>The members with which \<^verbatim>\<open>resolve\<close> calls \<^verbatim>\<open>dfs\<close> for the root.\<close>

definition start :: "string \<Rightarrow> DepResolver \<Rightarrow> DepResolver" where
  "start nm s0 = log_msg (''Resolving dependencies for '' @ nm @ ''...'') (clear_members s0)"

text \<open>
  \<open>classifies E k nm s dep s3\<close>: the call \<^verbatim>\<open>dfs(nm)\<close> with members \<open>s\<close> goes past its
  checks (the name is neither visited nor on the stack, its package is found and is not
  installed at that version), and its second loop gets to the dependency \<open>dep\<close> with
  members \<open>s3\<close>, every dependency before it having been classified with success.
\<close>

definition classifies ::
  "collaborators \<Rightarrow> nat \<Rightarrow> string \<Rightarrow> DepResolver \<Rightarrow> string \<Rightarrow> DepResolver \<Rightarrow> bool" where
  "classifies E k nm s dep s3 =
     (\<exists>p s2 before rest.
        nm \<notin> visited' s \<and> nm \<notin> in_stack' s
        \<and> fetch_info E nm (enter_stack nm s) = Some (p, s2)
        \<and> \<not> is_dep_satisfied E (name p @ ''='' @ version p)
        \<and> depends p @ makedepends p = before @ dep # rest
        \<and> classify E k nm before (prefetch E (depends p @ makedepends p) s2) = Some (True, s3))"

text \<open>
  \<open>reaches E k nm s path k' nm' s'\<close>: the call \<^verbatim>\<open>dfs(nm)\<close> with members \<open>s\<close> leads,
  through the calls \<^verbatim>\<open>dfs\<close> makes for dependencies that are neither satisfied nor in a
  repository, to the call \<^verbatim>\<open>dfs(nm')\<close> with members \<open>s'\<close>; \<open>path\<close> lists the names of
  the calls in between, from \<open>nm\<close> on and without \<open>nm'\<close>: the packages in progress.
  \<open>k\<close> and \<open>k'\<close> are the depths left to the two calls.
\<close>

inductive reaches ::
  "collaborators \<Rightarrow> nat \<Rightarrow> string \<Rightarrow> DepResolver \<Rightarrow> string list \<Rightarrow> nat \<Rightarrow> string \<Rightarrow> DepResolver \<Rightarrow> bool"
  for E :: collaborators where
  here: "reaches E k nm s [] k nm s"
| through: "classifies E k nm s dep s3 \<Longrightarrow>
     \<not> is_dep_satisfied E dep \<Longrightarrow> \<not> is_dep_in_repos E dep \<Longrightarrow>
     recursion_target E dep s3 = Some (t, s4) \<Longrightarrow>
     reaches E k t s4 path k' nm' s' \<Longrightarrow>
     reaches E (Suc k) nm s (nm # path) k' nm' s'"

text \<open>\<open>A\<close> needs \<open>B\<close> and \<open>B\<close> needs \<open>A\<close>; nothing is installed.\<close>

definition ex_cycle :: collaborators where
  "ex_cycle =
     directory [pkg ''A'' ''2'' [''B''], pkg ''B'' ''1'' [''A'']] (\<lambda>d. False) (\<lambda>d. False)"

text \<open>
  The members when the second loop of \<^verbatim>\<open>dfs("A")\<close> starts in that run, and when the
  second loop of \<^verbatim>\<open>dfs("B")\<close>, called from it, starts.
\<close>

definition ex_cycle_at_A :: DepResolver where
  "ex_cycle_at_A =
     prefetch ex_cycle [''B'']
       (snd (the (fetch_info ex_cycle ''A'' (enter_stack ''A'' (start ''A'' fresh_resolver)))))"

definition ex_cycle_at_B :: DepResolver where
  "ex_cycle_at_B =
     prefetch ex_cycle [''A'']
       (snd (the (fetch_info ex_cycle ''B'' (enter_stack ''B'' ex_cycle_at_A))))"

text \<open>
  The same two packages when an older \<open>A\<close> is installed: the dependency string \<open>A\<close>
  is satisfied, \<open>A=2\<close> is not.
\<close>

definition ex_cycle_installed :: collaborators where
  "ex_cycle_installed =
     directory [pkg ''A'' ''2'' [''B''], pkg ''B'' ''1'' [''A'']] (\<lambda>d. d = ''A'') (\<lambda>d. False)"

text \<open>
  \<open>app\<close> needs \<open>lib\<close>, and \<open>lib\<close> needs \<open>glibc\<close> (installed) and \<open>ghost>=2\<close>, which
  nothing provides. The members when the second loops of \<^verbatim>\<open>dfs("app")\<close> and of
  \<^verbatim>\<open>dfs("lib")\<close> start.
\<close>

definition ex_missing :: collaborators where
  "ex_missing =
     directory [pkg ''app'' ''1'' [''lib''], pkg ''lib'' ''1'' [''glibc'', ''ghost>=2'']]
       (\<lambda>d. d = ''glibc'') (\<lambda>d. False)"

definition ex_missing_at_app :: DepResolver where
  "ex_missing_at_app =
     prefetch ex_missing [''lib'']
       (snd (the (fetch_info ex_missing ''app'' (enter_stack ''app'' (start ''app'' fresh_resolver)))))"

definition ex_missing_at_lib :: DepResolver where
  "ex_missing_at_lib =
     prefetch ex_missing [''glibc'', ''ghost>=2'']
       (snd (the (fetch_info ex_missing ''lib'' (enter_stack ''lib'' ex_missing_at_app))))"

text \<open>
  \<open>r\<close> needs \<open>a\<close> and \<open>b\<close>, which both need \<open>c\<close>. The members when the second loop
  of \<^verbatim>\<open>dfs("r")\<close> starts, when \<^verbatim>\<open>dfs("a")\<close> has returned, and when the second loop
  of \<^verbatim>\<open>dfs("b")\<close> starts: \<open>c\<close> is visited by then.
\<close>

definition ex_diamond :: collaborators where
  "ex_diamond =
     directory [pkg ''r'' ''1'' [''a'', ''b''], pkg ''a'' ''1'' [''c''], pkg ''b'' ''1'' [''c''],
                pkg ''c'' ''1'' []]
       (\<lambda>d. False) (\<lambda>d. False)"

definition ex_diamond_at_r :: DepResolver where
  "ex_diamond_at_r =
     prefetch ex_diamond [''a'', ''b'']
       (snd (the (fetch_info ex_diamond ''r'' (enter_stack ''r'' (start ''r'' fresh_resolver)))))"

definition ex_diamond_after_a :: DepResolver where
  "ex_diamond_after_a = snd (the (dfs ex_diamond (Suc (Suc 0)) ''a'' ex_diamond_at_r))"

definition ex_diamond_at_b :: DepResolver where
  "ex_diamond_at_b =
     prefetch ex_diamond [''c'']
       (snd (the (fetch_info ex_diamond ''b'' (enter_stack ''b'' ex_diamond_after_a))))"


text \<open>
  \<open>r\<close> needs \<open>u\<close> (to build), \<open>cmake\<close> (in a repository) and \<open>a\<close>; \<open>a\<close> needs
  \<open>glibc\<close> (installed), \<open>w\<close> (to build) and \<open>missing\<close>, which nothing provides: the
  failure is in the loop of \<open>a\<close>, after the subtrees of \<open>u\<close> and \<open>w\<close> have completed.
\<close>

definition ex_nested :: collaborators where
  "ex_nested =
     directory
       [pkg ''r'' ''1'' [''u'', ''cmake'', ''a''], pkg ''u'' ''1'' [],
        pkg ''a'' ''1'' [''glibc'', ''w'', ''missing''], pkg ''w'' ''1'' []]
       (\<lambda>d. d = ''glibc'') (\<lambda>d. d = ''cmake'')"



text \<open>The same again, package after package: no package is named by a dependency
  of its own or of a package before it.\<close>

fun deps_first_rec :: "collaborators \<Rightarrow> PackageInfo list \<Rightarrow> bool" where
  "deps_first_rec E [] = True"
| "deps_first_rec E (x # xs) =
     ((\<forall>d \<in> set (depends x @ makedepends x).
         \<not> is_dep_satisfied E d \<longrightarrow> \<not> is_dep_in_repos E d \<longrightarrow>
         (\<forall>v \<in> set (x # xs). name v \<noteq> strip_version d))
      \<and> deps_first_rec E xs)"

text \<open>
  The collaborators present a graph: the remote directory knows a set of package
  names, none empty; \<^verbatim>\<open>info\<close> returns the package of the name it is asked for, or
  nothing; and \<^verbatim>\<open>info_batch\<close> returns a package for every known name it is asked for.
\<close>

definition known_name :: "collaborators \<Rightarrow> string \<Rightarrow> bool" where
  "known_name E k =
     (name (info E k) \<noteq> []
      \<or> (\<exists>names. k \<in> name ` set (info_batch E names))
      \<or> (\<exists>x. k \<in> name ` set (search_provides E x)))"

definition consistent_directory :: "collaborators \<Rightarrow> bool" where
  "consistent_directory E =
     ((\<forall>k. name (info E k) = [] \<or> name (info E k) = k)
      \<and> (\<forall>names. [] \<notin> name ` set (info_batch E names))
      \<and> (\<forall>x. [] \<notin> name ` set (search_provides E x))
      \<and> (\<forall>k names. known_name E k \<longrightarrow> k \<in> set names \<longrightarrow> k \<in> name ` set (info_batch E names)))"

text \<open>
  What holds of the members whenever \<^verbatim>\<open>dfs\<close> or its second loop is entered or left
  with success: the cache holds known packages under their own names; visited names and
  names on the stack are cached and never both; the build list holds visited packages
  whose recursed dependencies are visited or unknown to the directory, in an order that
  puts dependencies first.
\<close>

definition cache_ok :: "collaborators \<Rightarrow> DepResolver \<Rightarrow> bool" where
  "cache_ok E s = (\<forall>k p. aur_cache' s k = Some p \<longrightarrow> name p = k \<and> k \<noteq> [] \<and> known_name E k)"

definition deps_done :: "collaborators \<Rightarrow> string set \<Rightarrow> string list \<Rightarrow> bool" where
  "deps_done E vis deps =
     (\<forall>d \<in> set deps. \<not> is_dep_satisfied E d \<longrightarrow> \<not> is_dep_in_repos E d \<longrightarrow>
        strip_version d \<in> vis \<or> \<not> known_name E (strip_version d))"

definition resolver_inv :: "collaborators \<Rightarrow> DepResolver \<Rightarrow> bool" where
  "resolver_inv E s =
     (cache_ok E s
      \<and> visited' s \<union> in_stack' s \<subseteq> dom (aur_cache' s)
      \<and> visited' s \<inter> in_stack' s = {}
      \<and> name ` set (build_order' s) \<subseteq> visited' s
      \<and> (\<forall>p \<in> set (build_order' s). deps_done E (visited' s) (depends p @ makedepends p))
      \<and> deps_first_rec E (build_order' s))"

text \<open>
  The provider the directory has for a capability: the one \<^verbatim>\<open>find_provider\<close> finds when
  it searches. The memo of \<^verbatim>\<open>find_provider\<close> holds nothing else.
\<close>

definition directory_provider :: "collaborators \<Rightarrow> string \<Rightarrow> string" where
  "directory_provider E dep_name =
     (case find (provides_dep dep_name) (search_provides E dep_name) of
        Some p \<Rightarrow> name p | None \<Rightarrow> [])"

definition memo_ok :: "collaborators \<Rightarrow> DepResolver \<Rightarrow> bool" where
  "memo_ok E s = (\<forall>d m. provides_map' s d = Some m \<longrightarrow> m = directory_provider E d)"

text \<open>
  The first package of each build unit, and the packages that repeat the build unit of
  an earlier one, both in the order of the list.
\<close>

definition is_first_of_unit :: "PackageInfo list \<Rightarrow> nat \<Rightarrow> bool" where
  "is_first_of_unit xs i = (build_unit (xs ! i) \<notin> build_unit ` set (take i xs))"

definition first_occurrences :: "PackageInfo list \<Rightarrow> PackageInfo list" where
  "first_occurrences xs = map ((!) xs) (filter (is_first_of_unit xs) [0..<length xs])"

definition later_occurrences :: "PackageInfo list \<Rightarrow> PackageInfo list" where
  "later_occurrences xs = map ((!) xs) (filter (\<lambda>i. \<not> is_first_of_unit xs i) [0..<length xs])"

text \<open>
  The three lists of the members only grow: \<open>keeps_lists s s'\<close> when each of them in
  \<open>s'\<close> begins with what it is in \<open>s\<close>. \<open>kept_in_result s r\<close>: the result \<open>r\<close> holds
  what the three lists are in \<open>s\<close>, the build list deduplicated by build unit.
\<close>

definition keeps_lists :: "DepResolver \<Rightarrow> DepResolver \<Rightarrow> bool" where
  "keeps_lists s s' =
     (prefix (build_order' s) (build_order' s')
      \<and> prefix (repo_deps' s) (repo_deps' s')
      \<and> prefix (satisfied_deps' s) (satisfied_deps' s'))"

definition kept_in_result :: "DepResolver \<Rightarrow> DepResolution \<Rightarrow> bool" where
  "kept_in_result s r =
     (prefix (first_occurrences (build_order' s)) (aur_build_order r)
      \<and> prefix (repo_deps' s) (repo_deps r)
      \<and> prefix (satisfied_deps' s) (satisfied_deps r))"

section \<open>The upgrade scan (App::do\_aur\_upgrade, AurClient::check\_vcs\_version)\<close>

text \<open>\<^verbatim>\<open>AurClient::is_vcs_package\<close>: the name ends in one of six suffixes.\<close>

definition ends_with :: "string \<Rightarrow> string \<Rightarrow> bool" where
  "ends_with nm sfx =
     (length nm \<ge> length sfx \<and> drop (length nm - length sfx) nm = sfx)"

definition is_vcs_package :: "string \<Rightarrow> bool" where
  "is_vcs_package nm =
     list_ex (ends_with nm) [''-git'', ''-svn'', ''-hg'', ''-bzr'', ''-fossil'', ''-cvs'']"

text \<open>
  What \<^verbatim>\<open>check_vcs_version\<close> finds on the file system and gets back from the
  commands it runs for one package: whether the checkout has a \<^verbatim>\<open>.git\<close> directory,
  the exit code of \<^verbatim>\<open>git pull\<close>, whether the package directory exists, the exit code
  of \<^verbatim>\<open>git clone\<close>, whether a PKGBUILD is there, whether it has a \<^verbatim>\<open>pkgver()\<close>
  function, what \<^verbatim>\<open>parse_pkgbuild_version\<close> reads from it as it is, the exit code of
  \<^verbatim>\<open>makepkg --nobuild\<close>, and what \<^verbatim>\<open>parse_pkgbuild_version\<close> reads afterwards.
\<close>

record vcs_checkout =
  git_dir_exists :: bool
  pull_rc :: int
  pkg_dir_exists :: bool
  clone_rc :: int
  pkgbuild_exists :: bool
  has_pkgver_function :: bool
  static_version :: string
  makepkg_rc :: int
  updated_version :: string

text \<open>
  \<^verbatim>\<open>check_vcs_version\<close>: the empty string is "no version". A failed pull removes the
  directory, a missing directory is cloned; a failed clone, a missing PKGBUILD and an exit
  code of makepkg other than 0 and 13 give no version.
\<close>

definition check_vcs_version :: "vcs_checkout \<Rightarrow> string" where
  "check_vcs_version c =
     (let removed = (git_dir_exists c \<and> pull_rc c \<noteq> 0);
          present = (pkg_dir_exists c \<and> \<not> removed)
      in if \<not> present \<and> clone_rc c \<noteq> 0 then []
         else if \<not> pkgbuild_exists c then []
         else if \<not> has_pkgver_function c then static_version c
         else if makepkg_rc c \<noteq> 0 \<and> makepkg_rc c \<noteq> 13 then []
         else updated_version c)"

text \<open>
  The collaborators of the scan: \<^verbatim>\<open>alpm_pkg_vercmp\<close> (libalpm) and, for a package name
  and \<^verbatim>\<open>pkgbase\<close>, what the probe meets.
\<close>

record scan_env =
  vercmp :: "string \<Rightarrow> string \<Rightarrow> int"
  checkout :: "string \<Rightarrow> string \<Rightarrow> vcs_checkout"

text \<open>Lines 1279-1281: \<^verbatim>\<open>aur_map[p.name] = std::move(p)\<close> for every result.\<close>

fun aur_map_of :: "PackageInfo list \<Rightarrow> (string \<rightharpoonup> PackageInfo) \<Rightarrow> (string \<rightharpoonup> PackageInfo)" where
  "aur_map_of [] m = m"
| "aur_map_of (p # ps) m = aur_map_of ps (m(name p \<mapsto> p))"

text \<open>Lines 1283-1299: the packages whose directory version is greater.\<close>

fun version_upgrades ::
  "scan_env \<Rightarrow> (string \<rightharpoonup> PackageInfo) \<Rightarrow> PackageInfo list \<Rightarrow> (PackageInfo \<times> PackageInfo) list" where
  "version_upgrades env aur_map [] = []"
| "version_upgrades env aur_map (local # foreign) =
     (case aur_map (name local) of
        None \<Rightarrow> version_upgrades env aur_map foreign
      | Some aur_pkg \<Rightarrow>
          if vercmp env (version aur_pkg) (version local) > 0
          then (local, aur_pkg) # version_upgrades env aur_map foreign
          else version_upgrades env aur_map foreign)"

text \<open>Lines 1305-1317: the VCS packages whose directory version is not greater.\<close>

fun vcs_candidates ::
  "scan_env \<Rightarrow> (string \<rightharpoonup> PackageInfo) \<Rightarrow> PackageInfo list \<Rightarrow> (PackageInfo \<times> PackageInfo) list" where
  "vcs_candidates env aur_map [] = []"
| "vcs_candidates env aur_map (local # foreign) =
     (if \<not> is_vcs_package (name local) then vcs_candidates env aur_map foreign
      else case aur_map (name local) of
        None \<Rightarrow> vcs_candidates env aur_map foreign
      | Some aur_pkg \<Rightarrow>
          if vercmp env (version aur_pkg) (version local) \<le> 0
          then (local, aur_pkg) # vcs_candidates env aur_map foreign
          else vcs_candidates env aur_map foreign)"

text \<open>
  Lines 1348-1390: the probing loop, with the vector \<^verbatim>\<open>upgrades\<close> and the lines the
  code itself appends to \<^verbatim>\<open>vcs_log_lines\<close> (the lines tailed from the log file are
  the commands' output and are left out).
\<close>

fun vcs_check ::
  "scan_env \<Rightarrow> (PackageInfo \<times> PackageInfo) list \<Rightarrow> (PackageInfo \<times> PackageInfo) list
     \<Rightarrow> string list \<Rightarrow> (PackageInfo \<times> PackageInfo) list \<times> string list" where
  "vcs_check env [] upgrades vcs_log_lines = (upgrades, vcs_log_lines)"
| "vcs_check env ((local, aur_pkg) # rest) upgrades vcs_log_lines =
     (let lg = vcs_log_lines @ [[], ''=== Checking '' @ name local @ '' ===''];
          real_version = check_vcs_version (checkout env (name local) (pkgbase aur_pkg))
      in if real_version = [] then
           vcs_check env rest upgrades (lg @ [name local @ '': skipped (check failed)''])
         else if vercmp env real_version (version local) > 0 then
           vcs_check env rest (upgrades @ [(local, aur_pkg\<lparr>version := real_version\<rparr>)])
             (lg @ [name local @ '': '' @ version local @ '' -> '' @ real_version
                      @ '' (UPDATE AVAILABLE)''])
         else
           vcs_check env rest upgrades (lg @ [name local @ '': up to date ('' @ real_version @ '')'']))"

text \<open>
  Lines 1267-1396: from the foreign packages and the directory's batch answer to the
  vector \<^verbatim>\<open>upgrades\<close>.
\<close>

definition scan_upgrades ::
  "scan_env \<Rightarrow> PackageInfo list \<Rightarrow> PackageInfo list \<Rightarrow> (PackageInfo \<times> PackageInfo) list" where
  "scan_upgrades env foreign aur_info =
     (let aur_map = aur_map_of aur_info Map.empty;
          upgrades = version_upgrades env aur_map foreign;
          candidates = vcs_candidates env aur_map foreign
      in if candidates \<noteq> [] then
           fst (vcs_check env candidates upgrades
                  [''Checking '' @ to_string (length candidates) @ '' VCS package(s)...''])
         else upgrades)"

text \<open>What one probed candidate adds to \<^verbatim>\<open>upgrades\<close>.\<close>

definition probed_upgrade ::
  "scan_env \<Rightarrow> PackageInfo \<times> PackageInfo \<Rightarrow> (PackageInfo \<times> PackageInfo) list" where
  "probed_upgrade env c =
     (let real_version = check_vcs_version (checkout env (name (fst c)) (pkgbase (snd c)))
      in if real_version \<noteq> [] \<and> vercmp env real_version (version (fst c)) > 0
         then [(fst c, (snd c)\<lparr>version := real_version\<rparr>)] else [])"

text \<open>
  An example: three installed VCS packages at version 1, all at version 1 in the
  directory. The probe of \<open>a-git\<close> fails (makepkg exits with 1), the probe of \<open>b-git\<close>
  finds version 2, the probe of \<open>c-git\<close> finds version 1. Versions compare as numbers
  of equal length do.
\<close>

definition ex_checkout :: "string \<Rightarrow> vcs_checkout" where
  "ex_checkout nm =
     \<lparr>git_dir_exists = True, pull_rc = 0, pkg_dir_exists = True, clone_rc = 0,
      pkgbuild_exists = True, has_pkgver_function = True, static_version = ''1'',
      makepkg_rc = (if nm = ''a-git'' then 1 else 0),
      updated_version = (if nm = ''b-git'' then ''2'' else ''1'')\<rparr>"

definition ex_scan :: scan_env where
  "ex_scan =
     \<lparr>vercmp = (\<lambda>a b. if a = b then 0 else if a = ''2'' then 1 else -1),
      checkout = (\<lambda>nm base. ex_checkout nm)\<rparr>"

definition ex_foreign :: "PackageInfo list" where
  "ex_foreign = [pkg ''a-git'' ''1'' [], pkg ''b-git'' ''1'' [], pkg ''c-git'' ''1'' []]"

section \<open>The build pipeline (App::run\_aur\_builds, App::do\_install)\<close>

text \<open>
  The calls the pipeline makes to its collaborators, in the order it makes them:
  \<^verbatim>\<open>ui_.draw_confirm_dialog\<close> (title), \<^verbatim>\<open>aur_.fetch_pkgbuild\<close> (name, pkgbase),
  \<^verbatim>\<open>ui_.draw_pkgbuild_review\<close> (name), the \<^verbatim>\<open>pacman -S\<close> command run for the
  repository dependencies, \<^verbatim>\<open>aur_.build_package\<close> (name, pkgbase), the \<^verbatim>\<open>pacman -U\<close>
  command run for a built package (name, command) and \<^verbatim>\<open>alpm_.reload\<close>.
\<close>

datatype action =
    Confirm string
  | FetchPkgbuild string string
  | ReviewPkgbuild string
  | InstallRepoDeps string
  | BuildPackage string string
  | InstallPackage string string
  | Reload

text \<open>
  What the collaborators answer: the PKGBUILD text (empty: the fetch failed), the
  operator's decisions at the two dialogs, the exit code of a command run with
  \<^verbatim>\<open>system\<close>, and the path of the built package (empty: the build failed).
\<close>

record pipeline_env =
  draw_confirm_dialog :: "string \<Rightarrow> string list \<Rightarrow> bool"
  fetch_pkgbuild :: "string \<Rightarrow> string \<Rightarrow> string"
  draw_pkgbuild_review :: "string \<Rightarrow> string \<Rightarrow> string \<Rightarrow> bool"
  system_rc :: "string \<Rightarrow> int"
  build_package :: "string \<Rightarrow> string \<Rightarrow> string"

text \<open>
  What the pipeline changes: the reviewed PKGBUILD stored for each build unit
  (\<^verbatim>\<open>reviewed_dir/base/PKGBUILD\<close>; a write is taken to succeed), the status line
  (\<^verbatim>\<open>set_status\<close>), the lines the code itself appends to \<^verbatim>\<open>log_lines\<close> (the lines
  tailed from the log file are the commands' output and are left out), and the calls
  made so far.
\<close>

record pipeline_state =
  reviewed :: "string \<rightharpoonup> string"
  status_message :: string
  log_lines :: "string list"
  actions :: "action list"

definition act :: "action \<Rightarrow> pipeline_state \<Rightarrow> pipeline_state" where
  "act a st = st\<lparr>actions := actions st @ [a]\<rparr>"

definition set_status :: "string \<Rightarrow> pipeline_state \<Rightarrow> pipeline_state" where
  "set_status msg st = st\<lparr>status_message := msg\<rparr>"

definition push_log :: "string list \<Rightarrow> pipeline_state \<Rightarrow> pipeline_state" where
  "push_log ls st = st\<lparr>log_lines := log_lines st @ ls\<rparr>"

text \<open>Line 1041 (and aur.cpp): the directory name of a package's build unit.\<close>

definition base_of :: "PackageInfo \<Rightarrow> string" where
  "base_of p = (if pkgbase p \<noteq> [] \<and> pkgbase p \<noteq> name p then pkgbase p else name p)"

text \<open>Lines 1030-1073: the first loop fetches and reviews the PKGBUILD of every package.\<close>

fun review_all :: "pipeline_env \<Rightarrow> PackageInfo list \<Rightarrow> pipeline_state \<Rightarrow> bool \<times> pipeline_state" where
  "review_all env [] st = (True, st)"
| "review_all env (p # ps) st =
     (let st1 = act (FetchPkgbuild (name p) (pkgbase p))
                  (set_status (''Fetching PKGBUILD for '' @ name p @ ''...'') st);
          pkgbuild = fetch_pkgbuild env (name p) (pkgbase p)
      in if pkgbuild = [] then
           (False, set_status (''Failed to fetch PKGBUILD for '' @ name p) st1)
         else
           (let base = base_of p;
                stored = (case reviewed st1 base of None \<Rightarrow> [] | Some text \<Rightarrow> text);
                old_pkgbuild = (if stored = pkgbuild then [] else stored);
                st2 = act (ReviewPkgbuild (name p)) st1
            in if \<not> draw_pkgbuild_review env (name p) pkgbuild old_pkgbuild then
                 (False, set_status (''Build cancelled (PKGBUILD rejected for '' @ name p @ '')'') st2)
               else review_all env ps (st2\<lparr>reviewed := (reviewed st2)(base \<mapsto> pkgbuild)\<rparr>)))"

text \<open>Lines 1118-1124: the command that installs the repository dependencies.\<close>

fun dep_list_of :: "string list \<Rightarrow> string \<Rightarrow> string" where
  "dep_list_of [] dep_list = dep_list"
| "dep_list_of (d # ds) dep_list =
     dep_list_of ds ((if dep_list \<noteq> [] then dep_list @ '' '' else dep_list) @ d)"

definition log_file :: string where
  "log_file = ''/tmp/pmt_build.log''"

definition repo_deps_cmd :: "string list \<Rightarrow> string" where
  "repo_deps_cmd deps =
     ''pacman -S --needed --noconfirm --asdeps '' @ dep_list_of deps []
       @ '' >> '' @ [CHR 0x27] @ log_file @ [CHR 0x27] @ '' 2>&1''"

text \<open>Lines 1115-1138: the batch installation, only for a non-empty vector.\<close>

definition install_repo_deps :: "pipeline_env \<Rightarrow> string list \<Rightarrow> pipeline_state \<Rightarrow> bool \<times> pipeline_state" where
  "install_repo_deps env deps st =
     (if deps \<noteq> [] then
        (let st1 = act (InstallRepoDeps (repo_deps_cmd deps))
                     (push_log [''=== Installing repo dependencies ===''] st)
         in if system_rc env (repo_deps_cmd deps) \<noteq> 0 then
              (False, push_log [''FAILED to install repo dependencies''] st1)
            else (True, st1))
      else (True, st))"

text \<open>
  Lines 1181-1183: \<^verbatim>\<open>built_path.substr(0, built_path.rfind('/'))\<close> (the whole path
  when it has no slash) and the command that installs the built package.
\<close>

definition dir_of :: "string \<Rightarrow> string" where
  "dir_of path =
     (if CHR ''/'' \<in> set path
      then take (length path - Suc (length (takeWhile (\<lambda>c. c \<noteq> CHR ''/'') (rev path)))) path
      else path)"

definition install_cmd :: "string \<Rightarrow> string" where
  "install_cmd built_path =
     ''pacman -U --noconfirm --overwrite '' @ [CHR 0x27] @ ''*'' @ [CHR 0x27] @ '' ''
       @ dir_of built_path @ ''/*.pkg.tar* >> '' @ [CHR 0x27] @ log_file @ [CHR 0x27] @ '' 2>&1''"

text \<open>Lines 1140-1198: the second loop builds and installs one package after the other.\<close>

fun build_all :: "pipeline_env \<Rightarrow> PackageInfo list \<Rightarrow> pipeline_state \<Rightarrow> bool \<times> pipeline_state" where
  "build_all env [] st = (True, st)"
| "build_all env (p # ps) st =
     (let st1 = act (BuildPackage (name p) (pkgbase p))
                  (push_log [[], ''=== Building '' @ name p @ '' ===''] st);
          built_path = build_package env (name p) (pkgbase p)
      in if built_path = [] then
           (False, push_log [[], ''BUILD FAILED for '' @ name p] st1)
         else
           (let st2 = act (InstallPackage (name p) (install_cmd built_path))
                        (push_log [[], ''=== Installing '' @ name p @ '' ===''] st1)
            in if system_rc env (install_cmd built_path) \<noteq> 0 then
                 (False, push_log [''INSTALL FAILED for '' @ name p] st2)
               else build_all env ps (act Reload st2)))"

text \<open>\<^verbatim>\<open>run_aur_builds\<close>: the review loop, the batch installation, the build loop.\<close>

definition run_aur_builds ::
  "pipeline_env \<Rightarrow> PackageInfo list \<Rightarrow> string list \<Rightarrow> string \<Rightarrow> pipeline_state
     \<Rightarrow> bool \<times> pipeline_state" where
  "run_aur_builds env build_order deps summary_name st =
     (case review_all env build_order st of
        (False, st1) \<Rightarrow> (False, st1)
      | (True, st1) \<Rightarrow>
          (case install_repo_deps env deps st1 of
             (False, st2) \<Rightarrow> (False, st2)
           | (True, st2) \<Rightarrow>
               (case build_all env build_order st2 of
                  (False, st3) \<Rightarrow> (False, st3)
                | (True, st3) \<Rightarrow>
                    (True, push_log
                       [[], ''=== Build complete ==='',
                        ''Successfully built and installed '' @ summary_name
                          @ (if length build_order > 1
                             then '' ('' @ to_string (length build_order) @ '' AUR packages)''
                             else []),
                        [], ''Press any key to continue...''] st3))))"

text \<open>
  Lines 548-582 of \<^verbatim>\<open>do_install\<close>, for a package of the source directory, from the
  result of \<^verbatim>\<open>resolve\<close> on: the gate on \<^verbatim>\<open>ok\<close>, the empty build list, the
  confirmation dialog, and the pipeline.
\<close>

definition confirm_lines_of :: "PackageInfo \<Rightarrow> DepResolution \<Rightarrow> string list" where
  "confirm_lines_of p r =
     (if length (aur_build_order r) > 1
      then (''AUR packages to build ('' @ to_string (length (aur_build_order r)) @ ''):'')
             # map (\<lambda>q. ''  '' @ name q @ '' '' @ version q) (aur_build_order r)
      else [''Package: aur/'' @ name p @ '' '' @ version p])
     @ (if repo_deps r \<noteq> []
        then [''Repo deps (handled by makepkg): '' @ to_string (length (repo_deps r))] else [])
     @ (if satisfied_deps r \<noteq> []
        then [''Already installed: '' @ to_string (length (satisfied_deps r))] else [])"

definition do_install_aur ::
  "pipeline_env \<Rightarrow> PackageInfo \<Rightarrow> DepResolution \<Rightarrow> pipeline_state \<Rightarrow> bool option \<times> pipeline_state" where
  "do_install_aur env p r st =
     (if \<not> ok r then (None, set_status (''Dependency resolution failed: '' @ error r) st)
      else if aur_build_order r = [] then (None, set_status (name p @ '' is already up to date'') st)
      else
        (let st1 = act (Confirm ''Install AUR Package'') st in
         if \<not> draw_confirm_dialog env ''Install AUR Package'' (confirm_lines_of p r)
         then (None, set_status ''Install cancelled'' st1)
         else (case run_aur_builds env (aur_build_order r) (repo_deps r) (name p) st1 of
                 (b, st2) \<Rightarrow> (Some b, st2))))"

section \<open>Stage orders\<close>

text \<open>
  The stage order of the pipeline as the specification describes it: after the
  confirmation, the batch installation of the repository dependencies (when there are
  any), then for each package its review, its build and its installation.
\<close>

definition specified_order :: "pipeline_env \<Rightarrow> PackageInfo list \<Rightarrow> string list \<Rightarrow> action list" where
  "specified_order env build_order deps =
     (if deps \<noteq> [] then [InstallRepoDeps (repo_deps_cmd deps)] else [])
     @ concat (map (\<lambda>p. [FetchPkgbuild (name p) (pkgbase p), ReviewPkgbuild (name p),
                          BuildPackage (name p) (pkgbase p),
                          InstallPackage (name p) (install_cmd (build_package env (name p) (pkgbase p))),
                          Reload]) build_order)"

text \<open>
  The stage order of the code: every review first, then the batch installation, then
  for each package its build and its installation.
\<close>

definition review_actions :: "PackageInfo list \<Rightarrow> action list" where
  "review_actions build_order =
     concat (map (\<lambda>p. [FetchPkgbuild (name p) (pkgbase p), ReviewPkgbuild (name p)]) build_order)"

definition build_actions :: "pipeline_env \<Rightarrow> PackageInfo list \<Rightarrow> action list" where
  "build_actions env build_order =
     concat (map (\<lambda>p. [BuildPackage (name p) (pkgbase p),
                        InstallPackage (name p) (install_cmd (build_package env (name p) (pkgbase p))),
                        Reload]) build_order)"

definition pipeline_order :: "pipeline_env \<Rightarrow> PackageInfo list \<Rightarrow> string list \<Rightarrow> action list" where
  "pipeline_order env build_order deps =
     review_actions build_order
     @ (if deps \<noteq> [] then [InstallRepoDeps (repo_deps_cmd deps)] else [])
     @ build_actions env build_order"

text \<open>An operator who accepts everything, and commands that all succeed.\<close>

definition ex_pipeline :: pipeline_env where
  "ex_pipeline =
     \<lparr>draw_confirm_dialog = (\<lambda>title lines. True),
      fetch_pkgbuild = (\<lambda>nm base. ''pkgname='' @ nm),
      draw_pkgbuild_review = (\<lambda>nm new old. True),
      system_rc = (\<lambda>cmd. 0),
      build_package = (\<lambda>nm base. ''/cache/'' @ nm @ ''/'' @ nm @ ''.pkg.tar.zst'')\<rparr>"

definition ex_state :: pipeline_state where
  "ex_state = \<lparr>reviewed = Map.empty, status_message = [], log_lines = [], actions = []\<rparr>"

definition ex_plan :: DepResolution where
  "ex_plan =
     \<lparr>ok = True, error = [], aur_build_order = [pkg ''libfoo'' ''1'' [], pkg ''myapp'' ''2'' [''libfoo'', ''cmake'']],
      repo_deps = [''cmake''], satisfied_deps = []\<rparr>"

text \<open>
  The calls of the pipeline in the order of the code, each with its outcome: a fetch
  succeeds when it returns a text, a review when the operator accepts (the old text
  shown is the one stored for the build unit, when it differs), a command when it
  exits with 0, a build when it returns a path. \<open>rv\<close> is the store of reviewed
  PKGBUILDs when the pipeline starts.
\<close>

fun review_outcomes ::
  "pipeline_env \<Rightarrow> PackageInfo list \<Rightarrow> (string \<rightharpoonup> string) \<Rightarrow> (action \<times> bool) list" where
  "review_outcomes env [] rv = []"
| "review_outcomes env (p # ps) rv =
     (let pkgbuild = fetch_pkgbuild env (name p) (pkgbase p);
          stored = (case rv (base_of p) of None \<Rightarrow> [] | Some text \<Rightarrow> text);
          old_pkgbuild = (if stored = pkgbuild then [] else stored)
      in (FetchPkgbuild (name p) (pkgbase p), pkgbuild \<noteq> [])
         # (ReviewPkgbuild (name p), draw_pkgbuild_review env (name p) pkgbuild old_pkgbuild)
         # review_outcomes env ps (rv(base_of p \<mapsto> pkgbuild)))"

definition repo_outcomes :: "pipeline_env \<Rightarrow> string list \<Rightarrow> (action \<times> bool) list" where
  "repo_outcomes env deps =
     (if deps \<noteq> []
      then [(InstallRepoDeps (repo_deps_cmd deps), system_rc env (repo_deps_cmd deps) = 0)]
      else [])"

definition build_outcomes :: "pipeline_env \<Rightarrow> PackageInfo list \<Rightarrow> (action \<times> bool) list" where
  "build_outcomes env build_order =
     concat (map (\<lambda>p. [(BuildPackage (name p) (pkgbase p),
                          build_package env (name p) (pkgbase p) \<noteq> []),
                        (InstallPackage (name p) (install_cmd (build_package env (name p) (pkgbase p))),
                          system_rc env (install_cmd (build_package env (name p) (pkgbase p))) = 0),
                        (Reload, True)]) build_order)"

definition call_outcomes ::
  "pipeline_env \<Rightarrow> PackageInfo list \<Rightarrow> string list \<Rightarrow> (string \<rightharpoonup> string)
     \<Rightarrow> (action \<times> bool) list" where
  "call_outcomes env build_order deps rv =
     review_outcomes env build_order rv @ repo_outcomes env deps @ build_outcomes env build_order"

text \<open>The calls up to the first one that fails, that one included.\<close>

fun upto_first_failure :: "(action \<times> bool) list \<Rightarrow> action list" where
  "upto_first_failure [] = []"
| "upto_first_failure ((a, succeeded) # cs) =
     a # (if succeeded then upto_first_failure cs else [])"

text \<open>An operator who rejects the PKGBUILD of \<open>myapp\<close>, all else as before.\<close>

definition ex_rejecting :: pipeline_env where
  "ex_rejecting = ex_pipeline\<lparr>draw_pkgbuild_review := (\<lambda>nm new old. nm \<noteq> ''myapp'')\<rparr>"

section \<open>Properties of the resolver\<close>

subsection \<open>Deduplication by build unit\<close>

lemma is_first_of_unit_snoc:
  "i < length xs \<Longrightarrow> is_first_of_unit (xs @ [x]) i = is_first_of_unit xs i"
  by (simp add: is_first_of_unit_def nth_append)

lemma is_first_of_unit_last:
  "is_first_of_unit (xs @ [x]) (length xs) = (build_unit x \<notin> build_unit ` set xs)"
  by (simp add: is_first_of_unit_def)

lemma first_occurrences_snoc:
  "first_occurrences (xs @ [x]) =
     first_occurrences xs @ (if build_unit x \<in> build_unit ` set xs then [] else [x])"
proof -
  have a: "filter (is_first_of_unit (xs @ [x])) [0..<length xs] = filter (is_first_of_unit xs) [0..<length xs]"
    by (rule filter_cong) (simp_all add: is_first_of_unit_snoc)
  have b: "map ((!) (xs @ [x])) (filter (is_first_of_unit xs) [0..<length xs])
         = map ((!) xs) (filter (is_first_of_unit xs) [0..<length xs])"
    by (rule map_cong) (auto simp: nth_append)
  show ?thesis
    by (simp add: first_occurrences_def a b is_first_of_unit_last)
qed

lemma later_occurrences_snoc:
  "later_occurrences (xs @ [x]) =
     later_occurrences xs @ (if build_unit x \<in> build_unit ` set xs then [x] else [])"
proof -
  have a: "filter (\<lambda>i. \<not> is_first_of_unit (xs @ [x]) i) [0..<length xs]
         = filter (\<lambda>i. \<not> is_first_of_unit xs i) [0..<length xs]"
    by (rule filter_cong) (simp_all add: is_first_of_unit_snoc)
  have b: "map ((!) (xs @ [x])) (filter (\<lambda>i. \<not> is_first_of_unit xs i) [0..<length xs])
         = map ((!) xs) (filter (\<lambda>i. \<not> is_first_of_unit xs i) [0..<length xs])"
    by (rule map_cong) (auto simp: nth_append)
  show ?thesis
    by (simp add: later_occurrences_def a b is_first_of_unit_last)
qed

lemma dedupe_append:
  "dedupe (xs @ ys) seen acc lg =
     (case dedupe xs seen acc lg of
        (acc1, lg1) \<Rightarrow> dedupe ys (seen \<union> build_unit ` set xs) acc1 lg1)"
proof (induction xs arbitrary: seen acc lg)
  case Nil
  show ?case by simp
next
  case (Cons x xs)
  have "build_unit x \<in> seen \<Longrightarrow> insert (build_unit x) (seen \<union> build_unit ` set xs) = seen \<union> build_unit ` set xs"
    by auto
  then show ?case by (simp add: Let_def Cons)
qed

lemma dedupe_first_later:
  "dedupe xs {} [] lg = (first_occurrences xs, lg @ map skip_message (later_occurrences xs))"
proof (induction xs rule: rev_induct)
  case Nil
  show ?case by (simp add: first_occurrences_def later_occurrences_def)
next
  case (snoc x xs)
  show ?case
    by (simp add: dedupe_append snoc first_occurrences_snoc later_occurrences_snoc Let_def)
qed

lemma units_first_occurrences:
  "build_unit ` set (first_occurrences xs) = build_unit ` set xs"
proof (induction xs rule: rev_induct)
  case Nil
  show ?case by (simp add: first_occurrences_def)
next
  case (snoc x xs)
  then show ?case by (auto simp: first_occurrences_snoc)
qed

lemma distinct_first_occurrences: "distinct (map build_unit (first_occurrences xs))"
proof (induction xs rule: rev_induct)
  case Nil
  show ?case by (simp add: first_occurrences_def)
next
  case (snoc x xs)
  then show ?case
    using units_first_occurrences [of xs]
    by (auto simp: first_occurrences_snoc)
qed


subsection \<open>Independence of the members left by earlier calls\<close>

lemma clear_members_fresh: "clear_members s = fresh_resolver"
  by (cases s) (simp add: clear_members_def fresh_resolver_def)

text \<open>
  C8. Two-run independence: on an instance whose members hold whatever earlier calls
  left (\<open>s\<close> is any value of the members, so also the descriptor cache and the
  provider cache of any sequence of earlier calls), \<^verbatim>\<open>resolve\<close> returns what it returns
  on a freshly constructed instance, for every root and the same collaborators.
\<close>

theorem resolve_ignores_prior_state:
  "resolve E fuel nm s = resolve E fuel nm fresh_resolver"
  by (simp add: resolve_def clear_members_fresh)

theorem resolve_ignores_prior_state_witness:
  "map_option fst (resolve ex_installed (Suc 0) ''z'' ex_prior) =
     Some \<lparr>ok = True, error = [], aur_build_order = [], repo_deps = [], satisfied_deps = []\<rparr>
   \<and> map_option fst (resolve ex_installed (Suc 0) ''z'' fresh_resolver) =
     Some \<lparr>ok = True, error = [], aur_build_order = [], repo_deps = [], satisfied_deps = []\<rparr>"
proof -
  have fresh: "map_option fst (resolve ex_installed (Suc 0) ''z'' fresh_resolver) =
     Some \<lparr>ok = True, error = [], aur_build_order = [], repo_deps = [], satisfied_deps = []\<rparr>"
    by code_simp
  have "resolve ex_installed (Suc 0) ''z'' ex_prior
          = resolve ex_installed (Suc 0) ''z'' fresh_resolver"
    by (rule resolve_ignores_prior_state)
  with fresh show ?thesis by simp
qed

subsection \<open>The already-installed shortcut\<close>

text \<open>
  C5. A reached package (not visited, not on the stack) whose directory entry \<open>p\<close>
  (from the cache, or fetched) is installed at exactly its reported version: \<^verbatim>\<open>dfs\<close>
  returns \<open>True\<close> with any positive fuel, so without a recursive call. The members
  change in three places only: the name is visited, the entry is cached under the name,
  and two messages are logged. The build list, the repository and satisfied lists, the
  stack and the provider cache are as before, and the cache has no entry for a dependency
  that it had not before: no dependency is fetched or classified.
\<close>

theorem already_installed_shortcut:
  assumes "nm \<notin> visited' s" and "nm \<notin> in_stack' s"
    and "aur_cache' s nm = Some p \<or> (aur_cache' s nm = None \<and> info E nm = p \<and> name p \<noteq> [])"
    and "is_dep_satisfied E (name p @ ''='' @ version p)"
  shows "dfs E (Suc k) nm s =
           Some (True, s\<lparr>visited' := insert nm (visited' s),
                         aur_cache' := (aur_cache' s)(nm \<mapsto> p),
                         log' := log' s @ [''Fetching AUR info for '' @ nm @ ''...'',
                                          ''Skipping '' @ nm @ '' ('' @ version p @ '' already installed)'']\<rparr>)"
proof -
  have "insert nm (in_stack' s) - {nm} = in_stack' s"
    using assms(2) by auto
  moreover have "aur_cache' s nm = Some p \<Longrightarrow> (aur_cache' s)(nm \<mapsto> p) = aur_cache' s"
    by (auto simp: fun_upd_idem)
  ultimately show ?thesis
    using assms
    by (cases s) (auto simp: fetch_info_def log_msg_def enter_stack_def skip_installed_def Let_def)
qed

theorem already_installed_shortcut_witness:
  "resolve ex_installed (Suc 0) ''z'' fresh_resolver =
     Some (\<lparr>ok = True, error = [], aur_build_order = [], repo_deps = [], satisfied_deps = []\<rparr>,
           fresh_resolver\<lparr>visited' := {''z''},
              aur_cache' := [''z'' \<mapsto> pkg ''z'' ''1.0'' [''libz'']],
              log' := [''Resolving dependencies for z...'', ''Fetching AUR info for z...'',
                       ''Skipping z (1.0 already installed)'']\<rparr>)"
proof -
  let ?s = "log_msg ''Resolving dependencies for z...'' (clear_members fresh_resolver)"
  have "dfs ex_installed (Suc 0) ''z'' ?s =
          Some (True, ?s\<lparr>visited' := insert ''z'' (visited' ?s),
                         aur_cache' := (aur_cache' ?s)(''z'' \<mapsto> pkg ''z'' ''1.0'' [''libz'']),
                         log' := log' ?s @ [''Fetching AUR info for '' @ ''z'' @ ''...'',
                                          ''Skipping '' @ ''z'' @ '' (''
                                            @ version (pkg ''z'' ''1.0'' [''libz''])
                                            @ '' already installed)'']\<rparr>)"
    by (rule already_installed_shortcut)
       (simp_all add: ex_installed_def directory_def pkg_def clear_members_def log_msg_def
          fresh_resolver_def)
  then show ?thesis
    by (simp add: resolve_def pkg_def fresh_resolver_def clear_members_def log_msg_def)
qed

subsection \<open>The returned build list\<close>

text \<open>
  C6. After a successful traversal the returned build list is the traversal's list
  with, for every build unit (the \<^verbatim>\<open>pkgbase\<close>, or the name when that is empty), exactly
  its first package kept, in the same order; one message is logged for every later
  package of a build unit already seen, in order; so no two entries of the result share
  a build unit.
\<close>

theorem build_list_deduplicated:
  assumes "resolve E fuel nm s0 = Some (r, s2)" and "ok r"
  shows "\<exists>s1. dfs E fuel nm (log_msg (''Resolving dependencies for '' @ nm @ ''...'')
                              (clear_members s0)) = Some (True, s1)
            \<and> aur_build_order r = first_occurrences (build_order' s1)
            \<and> log' s2 = log' s1 @ map skip_message (later_occurrences (build_order' s1))
            \<and> distinct (map build_unit (aur_build_order r))"
  using assms
  by (auto simp: resolve_def Let_def dedupe_first_later distinct_first_occurrences
      split: option.splits prod.splits)

theorem build_list_deduplicated_witness:
  "\<exists>r s2. resolve ex_split (Suc (Suc 0)) ''foo-bin'' fresh_resolver = Some (r, s2) \<and> ok r
      \<and> map name (aur_build_order r) = [''foo-doc'']
      \<and> log' s2 = [''Resolving dependencies for foo-bin...'', ''Fetching AUR info for foo-bin...'',
             ''Batch-fetching 1 AUR dependencies...'', ''Fetching AUR info for foo-doc...'',
             ''Resolved: foo-doc'', ''Resolved: foo-bin'',
             ''Skipping foo-bin (split package, already building foo)'']
      \<and> distinct (map build_unit (aur_build_order r))"
proof -
  have "case resolve ex_split (Suc (Suc 0)) ''foo-bin'' fresh_resolver of
          None \<Rightarrow> False
        | Some (r, s2) \<Rightarrow> ok r \<and> map name (aur_build_order r) = [''foo-doc'']
            \<and> log' s2 = [''Resolving dependencies for foo-bin...'',
                 ''Fetching AUR info for foo-bin...'',
                 ''Batch-fetching 1 AUR dependencies...'', ''Fetching AUR info for foo-doc...'',
                 ''Resolved: foo-doc'', ''Resolved: foo-bin'',
                 ''Skipping foo-bin (split package, already building foo)'']"
    by code_simp
  then obtain r s2
    where run: "resolve ex_split (Suc (Suc 0)) ''foo-bin'' fresh_resolver = Some (r, s2)"
      and okr: "ok r"
      and names: "map name (aur_build_order r) = [''foo-doc'']"
      and lg: "log' s2 = [''Resolving dependencies for foo-bin...'',
                 ''Fetching AUR info for foo-bin...'',
                 ''Batch-fetching 1 AUR dependencies...'', ''Fetching AUR info for foo-doc...'',
                 ''Resolved: foo-doc'', ''Resolved: foo-bin'',
                 ''Skipping foo-bin (split package, already building foo)'']"
    by (auto split: option.splits)
  from build_list_deduplicated [OF run okr]
  have dist: "distinct (map build_unit (aur_build_order r))" by (elim exE conjE)
  show ?thesis
    by (rule exI [of _ r], rule exI [of _ s2]) (intro conjI; fact)
qed

subsection \<open>The upgrade scan\<close>


lemma vcs_check_fst:
  "fst (vcs_check env cands upgrades lg) = upgrades @ concat (map (probed_upgrade env) cands)"
proof (induction cands arbitrary: upgrades lg)
  case Nil
  show ?case by simp
next
  case (Cons c cands)
  obtain local aur_pkg where c: "c = (local, aur_pkg)" by (cases c)
  show ?case
    by (simp add: c Cons probed_upgrade_def Let_def)
qed

text \<open>
  C9. In the probing loop of the upgrade scan, for a VCS package whose version is probed:
  when the probe returns no version, the vector of upgrade candidates is left as it is,
  a "skipped" line is logged and the loop goes on with the remaining candidates; when
  the probe returns a version greater than the installed one, the package is appended to
  the candidates with the probed version in place of the directory's. So the scan returns
  the packages whose directory version is greater, followed, for every probed candidate
  in order, by that candidate with its probed version if the probe succeeded with a
  greater version, and by nothing otherwise.
\<close>

theorem vcs_probe_outcomes:
  "(check_vcs_version (checkout env (name local) (pkgbase aur_pkg)) = [] \<longrightarrow>
      vcs_check env ((local, aur_pkg) # rest) upgrades lg =
        vcs_check env rest upgrades
          (lg @ [[], ''=== Checking '' @ name local @ '' ==='',
                 name local @ '': skipped (check failed)'']))
   \<and> (check_vcs_version (checkout env (name local) (pkgbase aur_pkg)) = rv \<and> rv \<noteq> []
        \<and> vercmp env rv (version local) > 0 \<longrightarrow>
      vcs_check env ((local, aur_pkg) # rest) upgrades lg =
        vcs_check env rest (upgrades @ [(local, aur_pkg\<lparr>version := rv\<rparr>)])
          (lg @ [[], ''=== Checking '' @ name local @ '' ==='',
                 name local @ '': '' @ version local @ '' -> '' @ rv @ '' (UPDATE AVAILABLE)'']))
   \<and> fst (vcs_check env cands upgrades lg) = upgrades @ concat (map (probed_upgrade env) cands)
   \<and> scan_upgrades env foreign aur_info =
        version_upgrades env (aur_map_of aur_info Map.empty) foreign
        @ concat (map (probed_upgrade env)
            (vcs_candidates env (aur_map_of aur_info Map.empty) foreign))"
  by (auto simp: Let_def vcs_check_fst scan_upgrades_def)


theorem vcs_probe_outcomes_witness:
  "check_vcs_version (checkout ex_scan ''a-git'' []) = []
   \<and> check_vcs_version (checkout ex_scan ''b-git'' []) = ''2''
   \<and> vercmp ex_scan ''2'' ''1'' > 0
   \<and> vcs_candidates ex_scan (aur_map_of ex_foreign Map.empty) ex_foreign
        = [(pkg ''a-git'' ''1'' [], pkg ''a-git'' ''1'' []),
           (pkg ''b-git'' ''1'' [], pkg ''b-git'' ''1'' []),
           (pkg ''c-git'' ''1'' [], pkg ''c-git'' ''1'' [])]
   \<and> scan_upgrades ex_scan ex_foreign ex_foreign = [(pkg ''b-git'' ''1'' [], pkg ''b-git'' ''2'' [])]
   \<and> vcs_check ex_scan
        [(pkg ''a-git'' ''1'' [], pkg ''a-git'' ''1'' []),
         (pkg ''b-git'' ''1'' [], pkg ''b-git'' ''1'' [])] [] []
      = ([(pkg ''b-git'' ''1'' [], pkg ''b-git'' ''2'' [])],
         [[], ''=== Checking a-git ==='', ''a-git: skipped (check failed)'',
          [], ''=== Checking b-git ==='', ''b-git: 1 -> 2 (UPDATE AVAILABLE)''])"
proof -
  have a: "check_vcs_version (checkout ex_scan ''a-git'' []) = []"
    by code_simp
  have b: "check_vcs_version (checkout ex_scan ''b-git'' []) = ''2''" "''2'' \<noteq> ([]::string)"
    "vercmp ex_scan ''2'' ''1'' > 0"
    by code_simp+
  have c: "vcs_candidates ex_scan (aur_map_of ex_foreign Map.empty) ex_foreign
        = [(pkg ''a-git'' ''1'' [], pkg ''a-git'' ''1'' []),
           (pkg ''b-git'' ''1'' [], pkg ''b-git'' ''1'' []),
           (pkg ''c-git'' ''1'' [], pkg ''c-git'' ''1'' [])]"
    by code_simp
  have d: "scan_upgrades ex_scan ex_foreign ex_foreign = [(pkg ''b-git'' ''1'' [], pkg ''b-git'' ''2'' [])]"
    by code_simp
  have pa: "name (pkg ''a-git'' ''1'' []) = ''a-git''" "pkgbase (pkg ''a-git'' ''1'' []) = []"
     "name (pkg ''b-git'' ''1'' []) = ''b-git''" "pkgbase (pkg ''b-git'' ''1'' []) = []"
     "version (pkg ''b-git'' ''1'' []) = ''1''"
    by (simp_all add: pkg_def)
  have "vcs_check ex_scan
        [(pkg ''a-git'' ''1'' [], pkg ''a-git'' ''1'' []),
         (pkg ''b-git'' ''1'' [], pkg ''b-git'' ''1'' [])] [] []
      = vcs_check ex_scan [(pkg ''b-git'' ''1'' [], pkg ''b-git'' ''1'' [])] []
          ([] @ [[], ''=== Checking '' @ name (pkg ''a-git'' ''1'' []) @ '' ==='',
                 name (pkg ''a-git'' ''1'' []) @ '': skipped (check failed)''])"
    using vcs_probe_outcomes [of ex_scan "pkg ''a-git'' ''1'' []" "pkg ''a-git'' ''1'' []"
        "[(pkg ''b-git'' ''1'' [], pkg ''b-git'' ''1'' [])]" "[]" "[]" "''2''" "[]" "[]" "[]"] a
    by (simp only: pa)
  also have "\<dots> = ([(pkg ''b-git'' ''1'' [], pkg ''b-git'' ''2'' [])],
         [[], ''=== Checking a-git ==='', ''a-git: skipped (check failed)'',
          [], ''=== Checking b-git ==='', ''b-git: 1 -> 2 (UPDATE AVAILABLE)''])"
    by code_simp
  finally show ?thesis using a b c d by simp
qed

section \<open>Properties of the build pipeline\<close>

lemma review_all_actions:
  "review_all env ps st = (b, st1) \<Longrightarrow>
     \<exists>acts. actions st1 = actions st @ acts \<and> prefix acts (review_actions ps)
        \<and> (b \<longrightarrow> acts = review_actions ps)"
proof (induction ps arbitrary: st)
  case Nil
  then show ?case by (auto simp: review_actions_def)
next
  case (Cons p ps)
  let ?pkgbuild = "fetch_pkgbuild env (name p) (pkgbase p)"
  let ?st1 = "act (FetchPkgbuild (name p) (pkgbase p))
                  (set_status (''Fetching PKGBUILD for '' @ name p @ ''...'') st)"
  let ?st2 = "act (ReviewPkgbuild (name p)) ?st1"
  let ?st3 = "?st2\<lparr>reviewed := (reviewed ?st2)(base_of p \<mapsto> ?pkgbuild)\<rparr>"
  have a1: "actions ?st1 = actions st @ [FetchPkgbuild (name p) (pkgbase p)]"
    by (simp add: act_def set_status_def)
  have a2: "actions ?st2 = actions st @ [FetchPkgbuild (name p) (pkgbase p), ReviewPkgbuild (name p)]"
    by (simp add: act_def set_status_def)
  have ra: "review_actions (p # ps)
      = [FetchPkgbuild (name p) (pkgbase p), ReviewPkgbuild (name p)] @ review_actions ps"
    by (simp add: review_actions_def)
  from Cons.prems consider
      (fetch_failed) "b = False"
        "st1 = set_status (''Failed to fetch PKGBUILD for '' @ name p) ?st1"
    | (rejected) "b = False"
        "st1 = set_status (''Build cancelled (PKGBUILD rejected for '' @ name p @ '')'') ?st2"
    | (accepted) "review_all env ps ?st3 = (b, st1)"
    by (auto simp: Let_def split: if_splits)
  then show ?case
  proof cases
    case fetch_failed
    then show ?thesis using a1 by (auto simp: ra set_status_def)
  next
    case rejected
    then show ?thesis using a2 by (auto simp: ra set_status_def)
  next
    case accepted
    from Cons.IH [OF accepted] obtain acts where
      d: "actions st1 = actions ?st3 @ acts" "prefix acts (review_actions ps)"
         "b \<longrightarrow> acts = review_actions ps"
      by blast
    have "actions ?st3 = actions ?st2" by simp
    with d a2 show ?thesis
      by (intro exI [of _ "[FetchPkgbuild (name p) (pkgbase p), ReviewPkgbuild (name p)] @ acts"])
         (simp add: ra)
  qed
qed

lemma build_all_actions:
  "build_all env ps st = (b, st1) \<Longrightarrow>
     \<exists>acts. actions st1 = actions st @ acts \<and> prefix acts (build_actions env ps)
        \<and> (b \<longrightarrow> acts = build_actions env ps)"
proof (induction ps arbitrary: st)
  case Nil
  then show ?case by (auto simp: build_actions_def)
next
  case (Cons p ps)
  let ?path = "build_package env (name p) (pkgbase p)"
  let ?st1 = "act (BuildPackage (name p) (pkgbase p))
                  (push_log [[], ''=== Building '' @ name p @ '' ===''] st)"
  let ?st2 = "act (InstallPackage (name p) (install_cmd ?path))
                        (push_log [[], ''=== Installing '' @ name p @ '' ===''] ?st1)"
  let ?st3 = "act Reload ?st2"
  have a1: "actions ?st1 = actions st @ [BuildPackage (name p) (pkgbase p)]"
    by (simp add: act_def push_log_def)
  have a2: "actions ?st2 = actions st @ [BuildPackage (name p) (pkgbase p),
      InstallPackage (name p) (install_cmd ?path)]"
    by (simp add: act_def push_log_def)
  have a3: "actions ?st3 = actions st @ [BuildPackage (name p) (pkgbase p),
      InstallPackage (name p) (install_cmd ?path), Reload]"
    by (simp add: act_def push_log_def)
  have ba: "build_actions env (p # ps)
      = [BuildPackage (name p) (pkgbase p), InstallPackage (name p) (install_cmd ?path), Reload]
        @ build_actions env ps"
    by (simp add: build_actions_def)
  from Cons.prems consider
      (build_failed) "b = False" "st1 = push_log [[], ''BUILD FAILED for '' @ name p] ?st1"
    | (install_failed) "b = False" "st1 = push_log [''INSTALL FAILED for '' @ name p] ?st2"
    | (installed) "build_all env ps ?st3 = (b, st1)"
    by (auto simp: Let_def split: if_splits)
  then show ?case
  proof cases
    case build_failed
    then show ?thesis using a1 by (auto simp: ba push_log_def)
  next
    case install_failed
    then show ?thesis using a2 by (auto simp: ba push_log_def)
  next
    case installed
    from Cons.IH [OF installed] obtain acts where
      d: "actions st1 = actions ?st3 @ acts" "prefix acts (build_actions env ps)"
         "b \<longrightarrow> acts = build_actions env ps"
      by blast
    with a3 show ?thesis
      by (intro exI [of _ "[BuildPackage (name p) (pkgbase p),
            InstallPackage (name p) (install_cmd ?path), Reload] @ acts"])
         (simp add: ba)
  qed
qed

lemma install_repo_deps_actions:
  "install_repo_deps env deps st = (b, st1) \<Longrightarrow>
     actions st1 = actions st @ (if deps \<noteq> [] then [InstallRepoDeps (repo_deps_cmd deps)] else [])"
  by (auto simp: install_repo_deps_def Let_def act_def push_log_def split: if_splits)

lemma run_aur_builds_actions:
  assumes "run_aur_builds env build_order deps summary_name st = (b, st1)"
  shows "\<exists>acts. actions st1 = actions st @ acts
           \<and> prefix acts (pipeline_order env build_order deps)
           \<and> (b \<longrightarrow> acts = pipeline_order env build_order deps)"
proof -
  obtain b1 s1 where r1: "review_all env build_order st = (b1, s1)" by (cases "review_all env build_order st")
  from review_all_actions [OF r1] obtain d1 where
    d1: "actions s1 = actions st @ d1" "prefix d1 (review_actions build_order)"
        "b1 \<longrightarrow> d1 = review_actions build_order" by blast
  show ?thesis
  proof (cases b1)
    case False
    with r1 assms have "b = False" "st1 = s1" by (auto simp: run_aur_builds_def)
    with d1 show ?thesis by (auto simp: pipeline_order_def intro: prefix_order.trans)
  next
    case rev_ok: True
    obtain b2 s2 where r2: "install_repo_deps env deps s1 = (b2, s2)"
      by (cases "install_repo_deps env deps s1")
    note d2 = install_repo_deps_actions [OF r2]
    let ?dep = "if deps \<noteq> [] then [InstallRepoDeps (repo_deps_cmd deps)] else []"
    show ?thesis
    proof (cases b2)
      case False
      with r1 r2 rev_ok assms have "b = False" "st1 = s2" by (auto simp: run_aur_builds_def)
      with d1 d2 rev_ok show ?thesis
        by (intro exI [of _ "review_actions build_order @ ?dep"]) (simp add: pipeline_order_def)
    next
      case dep_ok: True
      obtain b3 s3 where r3: "build_all env build_order s2 = (b3, s3)"
        by (cases "build_all env build_order s2")
      from build_all_actions [OF r3] obtain d3 where
        d3: "actions s3 = actions s2 @ d3" "prefix d3 (build_actions env build_order)"
          "b3 \<longrightarrow> d3 = build_actions env build_order" by blast
      have st1: "actions st1 = actions s3" "b = b3"
        using r1 r2 r3 rev_ok dep_ok assms
        by (auto simp: run_aur_builds_def push_log_def split: bool.splits)
      with d1 d2 d3 rev_ok show ?thesis
        by (intro exI [of _ "review_actions build_order @ ?dep @ d3"])
           (simp add: pipeline_order_def)
    qed
  qed
qed


subsection \<open>Where the pipeline stops\<close>

lemma upto_first_failure_append:
  "upto_first_failure (xs @ ys) =
     (if list_all snd xs then map fst xs @ upto_first_failure ys else upto_first_failure xs)"
  by (induction xs) auto

lemma upto_first_failure_all: "list_all snd cs \<Longrightarrow> upto_first_failure cs = map fst cs"
  by (induction cs) auto

lemma upto_first_failure_stops:
  "\<not> list_all snd cs \<Longrightarrow>
     \<exists>before a after. cs = before @ (a, False) # after \<and> list_all snd before
        \<and> upto_first_failure cs = map fst before @ [a]"
proof (induction cs)
  case Nil
  then show ?case by simp
next
  case (Cons c cs)
  obtain a succeeded where c: "c = (a, succeeded)" by (cases c)
  show ?case
  proof (cases succeeded)
    case False
    with c show ?thesis
      by (intro exI [of _ "[]"] exI [of _ a] exI [of _ cs]) simp
  next
    case True
    with Cons.prems c have "\<not> list_all snd cs" by simp
    from Cons.IH [OF this] obtain before a' after where
      "cs = before @ (a', False) # after" "list_all snd before"
      "upto_first_failure cs = map fst before @ [a']"
      by blast
    with c True show ?thesis
      by (intro exI [of _ "(a, True) # before"] exI [of _ a'] exI [of _ after]) simp
  qed
qed

lemma review_outcomes_calls: "map fst (review_outcomes env ps rv) = review_actions ps"
  by (induction ps arbitrary: rv) (simp_all add: review_actions_def Let_def)

lemma build_outcomes_calls: "map fst (build_outcomes env ps) = build_actions env ps"
  by (induction ps) (simp_all add: build_outcomes_def build_actions_def)

lemma call_outcomes_calls:
  "map fst (call_outcomes env build_order deps rv) = pipeline_order env build_order deps"
  by (simp add: call_outcomes_def pipeline_order_def review_outcomes_calls
      build_outcomes_calls repo_outcomes_def)

lemma review_all_outcomes:
  "review_all env ps st = (b, st1) \<Longrightarrow>
     actions st1 = actions st @ upto_first_failure (review_outcomes env ps (reviewed st))
     \<and> b = list_all snd (review_outcomes env ps (reviewed st))"
proof (induction ps arbitrary: st)
  case Nil
  then show ?case by auto
next
  case (Cons p ps)
  let ?pkgbuild = "fetch_pkgbuild env (name p) (pkgbase p)"
  let ?st1 = "act (FetchPkgbuild (name p) (pkgbase p))
                  (set_status (''Fetching PKGBUILD for '' @ name p @ ''...'') st)"
  let ?st2 = "act (ReviewPkgbuild (name p)) ?st1"
  let ?st3 = "?st2\<lparr>reviewed := (reviewed ?st2)(base_of p \<mapsto> ?pkgbuild)\<rparr>"
  let ?stored = "case reviewed st (base_of p) of None \<Rightarrow> [] | Some text \<Rightarrow> text"
  let ?old = "if ?stored = ?pkgbuild then [] else ?stored"
  have a1: "actions ?st1 = actions st @ [FetchPkgbuild (name p) (pkgbase p)]"
    by (simp add: act_def set_status_def)
  have a2: "actions ?st2 = actions st @ [FetchPkgbuild (name p) (pkgbase p), ReviewPkgbuild (name p)]"
    by (simp add: act_def set_status_def)
  have r1: "reviewed ?st1 = reviewed st"
    by (simp add: act_def set_status_def)
  have r3: "reviewed ?st3 = (reviewed st)(base_of p \<mapsto> ?pkgbuild)"
    by (simp add: act_def set_status_def)
  have ro: "review_outcomes env (p # ps) (reviewed st)
      = (FetchPkgbuild (name p) (pkgbase p), ?pkgbuild \<noteq> [])
        # (ReviewPkgbuild (name p), draw_pkgbuild_review env (name p) ?pkgbuild ?old)
        # review_outcomes env ps ((reviewed st)(base_of p \<mapsto> ?pkgbuild))"
    by (simp add: Let_def)
  from Cons.prems r1 consider
      (fetch_failed) "?pkgbuild = []" "b = False"
        "st1 = set_status (''Failed to fetch PKGBUILD for '' @ name p) ?st1"
    | (rejected) "?pkgbuild \<noteq> []" "\<not> draw_pkgbuild_review env (name p) ?pkgbuild ?old"
        "b = False"
        "st1 = set_status (''Build cancelled (PKGBUILD rejected for '' @ name p @ '')'') ?st2"
    | (accepted) "?pkgbuild \<noteq> []" "draw_pkgbuild_review env (name p) ?pkgbuild ?old"
        "review_all env ps ?st3 = (b, st1)"
    by (auto simp: Let_def split: if_splits)
  then show ?case
  proof cases
    case fetch_failed
    then show ?thesis using a1 unfolding ro by (simp add: set_status_def)
  next
    case rejected
    then show ?thesis using a2 unfolding ro by (simp add: set_status_def)
  next
    case accepted
    from Cons.IH [OF accepted(3)] have
      "actions st1 = actions ?st3 @ upto_first_failure (review_outcomes env ps (reviewed ?st3))"
      "b = list_all snd (review_outcomes env ps (reviewed ?st3))"
      by blast+
    moreover have "actions ?st3 = actions ?st2" by simp
    ultimately show ?thesis
      using accepted(1,2) a2 unfolding ro r3 by simp
  qed
qed

lemma build_all_outcomes:
  "build_all env ps st = (b, st1) \<Longrightarrow>
     actions st1 = actions st @ upto_first_failure (build_outcomes env ps)
     \<and> b = list_all snd (build_outcomes env ps)"
proof (induction ps arbitrary: st)
  case Nil
  then show ?case by (auto simp: build_outcomes_def)
next
  case (Cons p ps)
  let ?path = "build_package env (name p) (pkgbase p)"
  let ?st1 = "act (BuildPackage (name p) (pkgbase p))
                  (push_log [[], ''=== Building '' @ name p @ '' ===''] st)"
  let ?st2 = "act (InstallPackage (name p) (install_cmd ?path))
                        (push_log [[], ''=== Installing '' @ name p @ '' ===''] ?st1)"
  let ?st3 = "act Reload ?st2"
  have a1: "actions ?st1 = actions st @ [BuildPackage (name p) (pkgbase p)]"
    by (simp add: act_def push_log_def)
  have a2: "actions ?st2 = actions st @ [BuildPackage (name p) (pkgbase p),
      InstallPackage (name p) (install_cmd ?path)]"
    by (simp add: act_def push_log_def)
  have a3: "actions ?st3 = actions st @ [BuildPackage (name p) (pkgbase p),
      InstallPackage (name p) (install_cmd ?path), Reload]"
    by (simp add: act_def push_log_def)
  have bo: "build_outcomes env (p # ps)
      = (BuildPackage (name p) (pkgbase p), ?path \<noteq> [])
        # (InstallPackage (name p) (install_cmd ?path), system_rc env (install_cmd ?path) = 0)
        # (Reload, True) # build_outcomes env ps"
    by (simp add: build_outcomes_def)
  from Cons.prems consider
      (build_failed) "?path = []" "b = False"
        "st1 = push_log [[], ''BUILD FAILED for '' @ name p] ?st1"
    | (install_failed) "?path \<noteq> []" "system_rc env (install_cmd ?path) \<noteq> 0" "b = False"
        "st1 = push_log [''INSTALL FAILED for '' @ name p] ?st2"
    | (installed) "?path \<noteq> []" "system_rc env (install_cmd ?path) = 0"
        "build_all env ps ?st3 = (b, st1)"
    by (auto simp: Let_def split: if_splits)
  then show ?case
  proof cases
    case build_failed
    then show ?thesis using a1 unfolding bo by (simp add: push_log_def)
  next
    case install_failed
    then show ?thesis using a2 unfolding bo by (simp add: push_log_def)
  next
    case installed
    from Cons.IH [OF installed(3)] have
      "actions st1 = actions ?st3 @ upto_first_failure (build_outcomes env ps)"
      "b = list_all snd (build_outcomes env ps)"
      by blast+
    then show ?thesis
      using installed(1,2) a3 unfolding bo by simp
  qed
qed

lemma install_repo_deps_outcomes:
  "install_repo_deps env deps st = (b, st1) \<Longrightarrow>
     actions st1 = actions st @ upto_first_failure (repo_outcomes env deps)
     \<and> b = list_all snd (repo_outcomes env deps)"
  by (auto simp: install_repo_deps_def repo_outcomes_def Let_def act_def push_log_def
      split: if_splits)

lemma run_aur_builds_outcomes:
  assumes "run_aur_builds env build_order deps summary_name st = (b, st1)"
  shows "actions st1 = actions st @ upto_first_failure (call_outcomes env build_order deps (reviewed st))
     \<and> b = list_all snd (call_outcomes env build_order deps (reviewed st))"
proof -
  obtain b1 s1 where r1: "review_all env build_order st = (b1, s1)"
    by (cases "review_all env build_order st")
  note d1 = review_all_outcomes [OF r1]
  show ?thesis
  proof (cases b1)
    case False
    with r1 assms have "b = False" "st1 = s1" by (auto simp: run_aur_builds_def)
    with d1 False show ?thesis
      by (simp add: call_outcomes_def upto_first_failure_append)
  next
    case rev_ok: True
    obtain b2 s2 where r2: "install_repo_deps env deps s1 = (b2, s2)"
      by (cases "install_repo_deps env deps s1")
    note d2 = install_repo_deps_outcomes [OF r2]
    show ?thesis
    proof (cases b2)
      case False
      with r1 r2 rev_ok assms have "b = False" "st1 = s2" by (auto simp: run_aur_builds_def)
      with d1 d2 rev_ok False show ?thesis
        by (simp add: call_outcomes_def upto_first_failure_append review_outcomes_calls
            upto_first_failure_all)
    next
      case dep_ok: True
      obtain b3 s3 where r3: "build_all env build_order s2 = (b3, s3)"
        by (cases "build_all env build_order s2")
      note d3 = build_all_outcomes [OF r3]
      have st1: "actions st1 = actions s3" "b = b3"
        using r1 r2 r3 rev_ok dep_ok assms
        by (auto simp: run_aur_builds_def push_log_def split: bool.splits)
      with d1 d2 d3 rev_ok dep_ok show ?thesis
        by (simp add: call_outcomes_def upto_first_failure_append review_outcomes_calls
            upto_first_failure_all)
    qed
  qed
qed


text \<open>
  C4 as amended. Once the operator has confirmed the plan, the calls of the pipeline
  are, in this order: for every package of the build list the fetch and the review of
  its PKGBUILD; then, only when the vector of repository dependencies is not empty, the
  one \<^verbatim>\<open>pacman -S --needed --noconfirm --asdeps\<close> command for all of them; then for
  every package its build, its installation and the reload of the local database. The
  pipeline makes these calls up to the first one that fails (a fetch without text, a
  rejected review, a command with a non-zero exit code, a build without package) and
  none after it; it returns \<open>True\<close> exactly when no call fails, and has then made all of
  them.
\<close>

theorem pipeline_stage_order:
  assumes "do_install_aur env p r st = (Some b, st1)"
  shows "\<exists>acts. actions st1 = actions st @ Confirm ''Install AUR Package'' # acts
           \<and> prefix acts (pipeline_order env (aur_build_order r) (repo_deps r))
           \<and> (b \<longrightarrow> acts = pipeline_order env (aur_build_order r) (repo_deps r))
           \<and> map fst (call_outcomes env (aur_build_order r) (repo_deps r) (reviewed st))
               = pipeline_order env (aur_build_order r) (repo_deps r)
           \<and> acts = upto_first_failure
                      (call_outcomes env (aur_build_order r) (repo_deps r) (reviewed st))
           \<and> b = list_all snd (call_outcomes env (aur_build_order r) (repo_deps r) (reviewed st))
           \<and> (\<not> b \<longrightarrow>
                (\<exists>before a after.
                   call_outcomes env (aur_build_order r) (repo_deps r) (reviewed st)
                     = before @ (a, False) # after
                   \<and> list_all snd before \<and> acts = map fst before @ [a]))"
proof -
  let ?st1 = "act (Confirm ''Install AUR Package'') st"
  let ?cs = "call_outcomes env (aur_build_order r) (repo_deps r) (reviewed st)"
  from assms have run: "run_aur_builds env (aur_build_order r) (repo_deps r) (name p) ?st1 = (b, st1)"
    by (auto simp: do_install_aur_def Let_def split: if_splits prod.splits)
  have rv: "reviewed ?st1 = reviewed st" by (simp add: act_def)
  from run_aur_builds_outcomes [OF run] have
    a: "actions st1 = actions st @ Confirm ''Install AUR Package'' # upto_first_failure ?cs"
    and b: "b = list_all snd ?cs"
    by (simp_all add: rv act_def)
  from run_aur_builds_actions [OF run] obtain acts where
    "actions st1 = actions ?st1 @ acts"
    and pre: "prefix acts (pipeline_order env (aur_build_order r) (repo_deps r))"
      "b \<longrightarrow> acts = pipeline_order env (aur_build_order r) (repo_deps r)"
    by blast
  with a have acts: "acts = upto_first_failure ?cs" by (simp add: act_def)
  have stops: "\<exists>before a after. ?cs = before @ (a, False) # after
      \<and> list_all snd before \<and> acts = map fst before @ [a]" if "\<not> b"
    using upto_first_failure_stops [of ?cs] that b acts by simp
  from a pre acts b stops call_outcomes_calls show ?thesis
    by (intro exI [of _ acts]) (simp add: acts)
qed

theorem pipeline_stage_order_witness:
  "(\<exists>st1. do_install_aur ex_pipeline (pkg ''myapp'' ''2'' []) ex_plan ex_state = (Some True, st1)
      \<and> actions st1 = actions ex_state @ Confirm ''Install AUR Package''
           # pipeline_order ex_pipeline (aur_build_order ex_plan) (repo_deps ex_plan)
      \<and> pipeline_order ex_pipeline (aur_build_order ex_plan) (repo_deps ex_plan)
          = [FetchPkgbuild ''libfoo'' [], ReviewPkgbuild ''libfoo'',
             FetchPkgbuild ''myapp'' [], ReviewPkgbuild ''myapp'',
             InstallRepoDeps (repo_deps_cmd [''cmake'']),
             BuildPackage ''libfoo'' [],
             InstallPackage ''libfoo'' (install_cmd ''/cache/libfoo/libfoo.pkg.tar.zst''), Reload,
             BuildPackage ''myapp'' [],
             InstallPackage ''myapp'' (install_cmd ''/cache/myapp/myapp.pkg.tar.zst''), Reload])
   \<and> (\<exists>st1. do_install_aur ex_rejecting (pkg ''myapp'' ''2'' []) ex_plan ex_state = (Some False, st1)
      \<and> actions st1 = actions ex_state @ Confirm ''Install AUR Package''
           # [FetchPkgbuild ''libfoo'' [], ReviewPkgbuild ''libfoo'',
              FetchPkgbuild ''myapp'' [], ReviewPkgbuild ''myapp''])
   \<and> map snd (call_outcomes ex_rejecting (aur_build_order ex_plan) (repo_deps ex_plan)
                 (reviewed ex_state))
        = [True, True, True, False, True, True, True, True, True, True, True]"
proof -
  have run: "do_install_aur ex_pipeline (pkg ''myapp'' ''2'' []) ex_plan ex_state
      = (Some True, snd (do_install_aur ex_pipeline (pkg ''myapp'' ''2'' []) ex_plan ex_state))"
    by (rule prod_eqI) (code_simp, simp)
  from pipeline_stage_order [OF run]
  have a: "actions (snd (do_install_aur ex_pipeline (pkg ''myapp'' ''2'' []) ex_plan ex_state))
      = actions ex_state @ Confirm ''Install AUR Package''
           # pipeline_order ex_pipeline (aur_build_order ex_plan) (repo_deps ex_plan)"
    by auto
  have b: "pipeline_order ex_pipeline (aur_build_order ex_plan) (repo_deps ex_plan)
          = [FetchPkgbuild ''libfoo'' [], ReviewPkgbuild ''libfoo'',
             FetchPkgbuild ''myapp'' [], ReviewPkgbuild ''myapp'',
             InstallRepoDeps (repo_deps_cmd [''cmake'']),
             BuildPackage ''libfoo'' [],
             InstallPackage ''libfoo'' (install_cmd ''/cache/libfoo/libfoo.pkg.tar.zst''), Reload,
             BuildPackage ''myapp'' [],
             InstallPackage ''myapp'' (install_cmd ''/cache/myapp/myapp.pkg.tar.zst''), Reload]"
    by code_simp
  have accepted: "\<exists>st1. do_install_aur ex_pipeline (pkg ''myapp'' ''2'' []) ex_plan ex_state
        = (Some True, st1)
      \<and> actions st1 = actions ex_state @ Confirm ''Install AUR Package''
           # pipeline_order ex_pipeline (aur_build_order ex_plan) (repo_deps ex_plan)
      \<and> pipeline_order ex_pipeline (aur_build_order ex_plan) (repo_deps ex_plan)
          = [FetchPkgbuild ''libfoo'' [], ReviewPkgbuild ''libfoo'',
             FetchPkgbuild ''myapp'' [], ReviewPkgbuild ''myapp'',
             InstallRepoDeps (repo_deps_cmd [''cmake'']),
             BuildPackage ''libfoo'' [],
             InstallPackage ''libfoo'' (install_cmd ''/cache/libfoo/libfoo.pkg.tar.zst''), Reload,
             BuildPackage ''myapp'' [],
             InstallPackage ''myapp'' (install_cmd ''/cache/myapp/myapp.pkg.tar.zst''), Reload]"
    by (rule exI [of _ "snd (do_install_aur ex_pipeline (pkg ''myapp'' ''2'' []) ex_plan ex_state)"])
       (intro conjI; (rule run | rule a | rule b))
  have run2: "do_install_aur ex_rejecting (pkg ''myapp'' ''2'' []) ex_plan ex_state
      = (Some False, snd (do_install_aur ex_rejecting (pkg ''myapp'' ''2'' []) ex_plan ex_state))"
    by (rule prod_eqI) (code_simp, simp)
  from pipeline_stage_order [OF run2]
  have a2: "actions (snd (do_install_aur ex_rejecting (pkg ''myapp'' ''2'' []) ex_plan ex_state))
      = actions ex_state @ Confirm ''Install AUR Package''
           # upto_first_failure (call_outcomes ex_rejecting (aur_build_order ex_plan)
                (repo_deps ex_plan) (reviewed ex_state))"
    by auto
  have b2: "upto_first_failure (call_outcomes ex_rejecting (aur_build_order ex_plan)
                (repo_deps ex_plan) (reviewed ex_state))
      = [FetchPkgbuild ''libfoo'' [], ReviewPkgbuild ''libfoo'',
         FetchPkgbuild ''myapp'' [], ReviewPkgbuild ''myapp'']"
    by code_simp
  have rejected: "\<exists>st1. do_install_aur ex_rejecting (pkg ''myapp'' ''2'' []) ex_plan ex_state
        = (Some False, st1)
      \<and> actions st1 = actions ex_state @ Confirm ''Install AUR Package''
           # [FetchPkgbuild ''libfoo'' [], ReviewPkgbuild ''libfoo'',
              FetchPkgbuild ''myapp'' [], ReviewPkgbuild ''myapp'']"
    by (rule exI [of _ "snd (do_install_aur ex_rejecting (pkg ''myapp'' ''2'' []) ex_plan ex_state)"])
       (intro conjI; (rule run2 | rule a2 [unfolded b2]))
  have outcomes: "map snd (call_outcomes ex_rejecting (aur_build_order ex_plan) (repo_deps ex_plan)
                 (reviewed ex_state))
        = [True, True, True, False, True, True, True, True, True, True, True]"
    by code_simp
  show ?thesis
    by (intro conjI accepted rejected outcomes)
qed

text \<open>
  C4 as stated fails: with one repository dependency and two packages, all accepted and
  all succeeding, both reviews come before the batch installation, and the review of
  the second package before the build of the first.
\<close>

theorem pipeline_stage_order_counterexample:
  "fst (do_install_aur ex_pipeline (pkg ''myapp'' ''2'' []) ex_plan ex_state) = Some True
   \<and> actions (snd (do_install_aur ex_pipeline (pkg ''myapp'' ''2'' []) ex_plan ex_state))
       = [Confirm ''Install AUR Package'',
          FetchPkgbuild ''libfoo'' [], ReviewPkgbuild ''libfoo'',
          FetchPkgbuild ''myapp'' [], ReviewPkgbuild ''myapp'',
          InstallRepoDeps (repo_deps_cmd [''cmake'']),
          BuildPackage ''libfoo'' [],
          InstallPackage ''libfoo'' (install_cmd ''/cache/libfoo/libfoo.pkg.tar.zst''), Reload,
          BuildPackage ''myapp'' [],
          InstallPackage ''myapp'' (install_cmd ''/cache/myapp/myapp.pkg.tar.zst''), Reload]
   \<and> actions (snd (do_install_aur ex_pipeline (pkg ''myapp'' ''2'' []) ex_plan ex_state))
       \<noteq> Confirm ''Install AUR Package''
           # specified_order ex_pipeline (aur_build_order ex_plan) (repo_deps ex_plan)"
  by code_simp

section \<open>The traversal, case by case\<close>

text \<open>The equations of \<^verbatim>\<open>dfs\<close> and of the second loop, one for each way through them.\<close>

lemma dfs_visited: "nm \<in> visited' s \<Longrightarrow> dfs E (Suc k) nm s = Some (True, s)"
  by simp

lemma dfs_in_stack:
  "nm \<notin> visited' s \<Longrightarrow> nm \<in> in_stack' s \<Longrightarrow>
     dfs E (Suc k) nm s = Some (False, s\<lparr>error' := ''Circular dependency detected: '' @ nm\<rparr>)"
  by simp

lemma dfs_not_found:
  "nm \<notin> visited' s \<Longrightarrow> nm \<notin> in_stack' s \<Longrightarrow> fetch_info E nm (enter_stack nm s) = None \<Longrightarrow>
     dfs E (Suc k) nm s = Some (False, not_found nm (enter_stack nm s))"
  by simp

lemma dfs_installed:
  "nm \<notin> visited' s \<Longrightarrow> nm \<notin> in_stack' s \<Longrightarrow>
   fetch_info E nm (enter_stack nm s) = Some (p, s2) \<Longrightarrow>
   is_dep_satisfied E (name p @ ''='' @ version p) \<Longrightarrow>
     dfs E (Suc k) nm s = Some (True, skip_installed nm p s2)"
  by simp

lemma dfs_descend:
  assumes "nm \<notin> visited' s" "nm \<notin> in_stack' s"
    and "fetch_info E nm (enter_stack nm s) = Some (p, s2)"
    and "\<not> is_dep_satisfied E (name p @ ''='' @ version p)"
  shows "dfs E (Suc k) nm s =
     (case classify E k nm (depends p @ makedepends p)
             (prefetch E (depends p @ makedepends p) s2) of
        None \<Rightarrow> None
      | Some (b, s3) \<Rightarrow> if b then Some (True, finish nm p s3) else Some (False, s3))"
  using assms by (simp add: Let_def)

lemma classify_satisfied:
  "is_dep_satisfied E dep \<Longrightarrow>
     classify E k nm (dep # deps) s =
       classify E k nm deps (s\<lparr>satisfied_deps' := satisfied_deps' s @ [dep]\<rparr>)"
  by simp

lemma classify_in_repos:
  "\<not> is_dep_satisfied E dep \<Longrightarrow> is_dep_in_repos E dep \<Longrightarrow>
     classify E k nm (dep # deps) s =
       classify E k nm deps (s\<lparr>repo_deps' := repo_deps' s @ [dep]\<rparr>)"
  by simp

lemma classify_recurse:
  "\<not> is_dep_satisfied E dep \<Longrightarrow> \<not> is_dep_in_repos E dep \<Longrightarrow>
   recursion_target E dep s = Some (t, s1) \<Longrightarrow>
     classify E k nm (dep # deps) s =
       (case dfs E k t s1 of
          None \<Rightarrow> None
        | Some (b, s2) \<Rightarrow> if b then classify E k nm deps s2 else Some (False, s2))"
  by (auto simp: recursion_target_def Let_def split: if_splits prod.splits)

lemma classify_missing:
  "\<not> is_dep_satisfied E dep \<Longrightarrow> \<not> is_dep_in_repos E dep \<Longrightarrow>
   recursion_target E dep s = None \<Longrightarrow>
     classify E k nm (dep # deps) s =
       Some (False, (snd (find_provider E (strip_version dep) s))
                      \<lparr>error' := ''Dependency not found anywhere: '' @ dep
                                  @ '' (required by '' @ nm @ '')''\<rparr>)"
  by (auto simp: recursion_target_def Let_def split: if_splits prod.splits)

declare dfs.simps [simp del] classify.simps(2) [simp del]

text \<open>
  Induction over a run that returns: one case for each way \<^verbatim>\<open>dfs\<close> and the second
  loop return, with the hypotheses for the calls that way makes.
\<close>

lemma dfs_classify_result_induct_raw:
  fixes P :: "nat \<Rightarrow> string \<Rightarrow> DepResolver \<Rightarrow> bool \<Rightarrow> DepResolver \<Rightarrow> bool"
    and Q :: "nat \<Rightarrow> string \<Rightarrow> string list \<Rightarrow> DepResolver \<Rightarrow> bool \<Rightarrow> DepResolver \<Rightarrow> bool"
  assumes visited: "\<And>k nm s. nm \<in> visited' s \<Longrightarrow> P (Suc k) nm s True s"
    and in_stack: "\<And>k nm s. nm \<notin> visited' s \<Longrightarrow> nm \<in> in_stack' s \<Longrightarrow>
        P (Suc k) nm s False (s\<lparr>error' := ''Circular dependency detected: '' @ nm\<rparr>)"
    and not_found: "\<And>k nm s. nm \<notin> visited' s \<Longrightarrow> nm \<notin> in_stack' s \<Longrightarrow>
        fetch_info E nm (enter_stack nm s) = None \<Longrightarrow>
        P (Suc k) nm s False (not_found nm (enter_stack nm s))"
    and installed: "\<And>k nm s p s2. nm \<notin> visited' s \<Longrightarrow> nm \<notin> in_stack' s \<Longrightarrow>
        fetch_info E nm (enter_stack nm s) = Some (p, s2) \<Longrightarrow>
        is_dep_satisfied E (name p @ ''='' @ version p) \<Longrightarrow>
        P (Suc k) nm s True (skip_installed nm p s2)"
    and resolved: "\<And>k nm s p s2 s3. nm \<notin> visited' s \<Longrightarrow> nm \<notin> in_stack' s \<Longrightarrow>
        fetch_info E nm (enter_stack nm s) = Some (p, s2) \<Longrightarrow>
        \<not> is_dep_satisfied E (name p @ ''='' @ version p) \<Longrightarrow>
        classify E k nm (depends p @ makedepends p)
          (prefetch E (depends p @ makedepends p) s2) = Some (True, s3) \<Longrightarrow>
        Q k nm (depends p @ makedepends p) (prefetch E (depends p @ makedepends p) s2) True s3 \<Longrightarrow>
        P (Suc k) nm s True (finish nm p s3)"
    and dep_failed: "\<And>k nm s p s2 s3. nm \<notin> visited' s \<Longrightarrow> nm \<notin> in_stack' s \<Longrightarrow>
        fetch_info E nm (enter_stack nm s) = Some (p, s2) \<Longrightarrow>
        \<not> is_dep_satisfied E (name p @ ''='' @ version p) \<Longrightarrow>
        classify E k nm (depends p @ makedepends p)
          (prefetch E (depends p @ makedepends p) s2) = Some (False, s3) \<Longrightarrow>
        Q k nm (depends p @ makedepends p) (prefetch E (depends p @ makedepends p) s2) False s3 \<Longrightarrow>
        P (Suc k) nm s False s3"
    and nil: "\<And>k nm s. Q k nm [] s True s"
    and satisfied: "\<And>k nm dep deps s b s'. is_dep_satisfied E dep \<Longrightarrow>
        classify E k nm deps (s\<lparr>satisfied_deps' := satisfied_deps' s @ [dep]\<rparr>) = Some (b, s') \<Longrightarrow>
        Q k nm deps (s\<lparr>satisfied_deps' := satisfied_deps' s @ [dep]\<rparr>) b s' \<Longrightarrow>
        Q k nm (dep # deps) s b s'"
    and in_repos: "\<And>k nm dep deps s b s'. \<not> is_dep_satisfied E dep \<Longrightarrow>
        is_dep_in_repos E dep \<Longrightarrow>
        classify E k nm deps (s\<lparr>repo_deps' := repo_deps' s @ [dep]\<rparr>) = Some (b, s') \<Longrightarrow>
        Q k nm deps (s\<lparr>repo_deps' := repo_deps' s @ [dep]\<rparr>) b s' \<Longrightarrow>
        Q k nm (dep # deps) s b s'"
    and missing: "\<And>k nm dep deps s. \<not> is_dep_satisfied E dep \<Longrightarrow>
        \<not> is_dep_in_repos E dep \<Longrightarrow> recursion_target E dep s = None \<Longrightarrow>
        Q k nm (dep # deps) s False
          ((snd (find_provider E (strip_version dep) s))
             \<lparr>error' := ''Dependency not found anywhere: '' @ dep
                         @ '' (required by '' @ nm @ '')''\<rparr>)"
    and recursed: "\<And>k nm dep deps s t s1 s2 b s'. \<not> is_dep_satisfied E dep \<Longrightarrow>
        \<not> is_dep_in_repos E dep \<Longrightarrow> recursion_target E dep s = Some (t, s1) \<Longrightarrow>
        dfs E k t s1 = Some (True, s2) \<Longrightarrow> P k t s1 True s2 \<Longrightarrow>
        classify E k nm deps s2 = Some (b, s') \<Longrightarrow> Q k nm deps s2 b s' \<Longrightarrow>
        Q k nm (dep # deps) s b s'"
    and failed: "\<And>k nm dep deps s t s1 s2. \<not> is_dep_satisfied E dep \<Longrightarrow>
        \<not> is_dep_in_repos E dep \<Longrightarrow> recursion_target E dep s = Some (t, s1) \<Longrightarrow>
        dfs E k t s1 = Some (False, s2) \<Longrightarrow> P k t s1 False s2 \<Longrightarrow>
        Q k nm (dep # deps) s False s2"
  shows "dfs E k nm s = Some (b, s') \<Longrightarrow> P k nm s b s'"
    and "classify E k nm deps s = Some (b, s') \<Longrightarrow> Q k nm deps s b s'"
proof -
  have "dfs E0 k nm s = Some (b, s') \<longrightarrow> E0 = E \<longrightarrow> P k nm s b s'"
    and "classify E0 k nm deps s = Some (b, s') \<longrightarrow> E0 = E \<longrightarrow> Q k nm deps s b s'" for E0
  proof (induction E0 k nm s and E0 k nm deps s arbitrary: b s' and b s' rule: dfs_classify.induct)
    case (1 E0 nm s)
    then show ?case by (simp add: dfs.simps)
  next
    case (2 E0 k nm s)
    show ?case
    proof (intro impI)
      assume run0: "dfs E0 (Suc k) nm s = Some (b, s')" and e: "E0 = E"
      from run0 e have run: "dfs E (Suc k) nm s = Some (b, s')" by simp
      note IH = "2.IH" [unfolded e]
      show "P (Suc k) nm s b s'"
      proof (cases "nm \<in> visited' s")
        case True
        with run visited [OF True, of k] show ?thesis by (simp add: dfs_visited)
      next
        case nv: False
        show ?thesis
        proof (cases "nm \<in> in_stack' s")
          case True
          with nv run in_stack [OF nv True, of k] show ?thesis by (simp add: dfs_in_stack)
        next
          case ns: False
          show ?thesis
          proof (cases "fetch_info E nm (enter_stack nm s)")
            case None
            with run nv ns not_found [OF nv ns None, of k] show ?thesis
              by (simp add: dfs_not_found)
          next
            case (Some a)
            obtain p s2 where a: "a = (p, s2)" by (cases a)
            note f = Some [unfolded a]
            show ?thesis
            proof (cases "is_dep_satisfied E (name p @ ''='' @ version p)")
              case True
              with run nv ns f installed [OF nv ns f True, of k] show ?thesis
                by (simp add: dfs_installed)
            next
              case nsat: False
              from run obtain c s3 where
                c: "classify E k nm (depends p @ makedepends p)
                   (prefetch E (depends p @ makedepends p) s2) = Some (c, s3)"
                and r: "(b, s') = (if c then (True, finish nm p s3) else (False, s3))"
                by (auto simp: dfs_descend [OF nv ns f nsat] split: option.splits if_splits)
              note ih = IH [OF nv ns f refl nsat refl, rule_format, OF c refl]
              show ?thesis
              proof (cases c)
                case True
                with r c ih resolved [OF nv ns f nsat, of k s3] show ?thesis by simp
              next
                case False
                with r c ih dep_failed [OF nv ns f nsat, of k s3] show ?thesis by simp
              qed
            qed
          qed
        qed
      qed
    qed
  next
    case (3 E0 k nm s)
    show ?case using nil by simp
  next
    case (4 E0 k nm dep deps s)
    show ?case
    proof (intro impI)
      assume run0: "classify E0 k nm (dep # deps) s = Some (b, s')" and e: "E0 = E"
      from run0 e have run: "classify E k nm (dep # deps) s = Some (b, s')" by simp
      note IH = "4.IH" [unfolded e]
      show "Q k nm (dep # deps) s b s'"
      proof (cases "is_dep_satisfied E dep")
        case True
        from run True
        have c: "classify E k nm deps (s\<lparr>satisfied_deps' := satisfied_deps' s @ [dep]\<rparr>) = Some (b, s')"
          by (simp add: classify_satisfied)
        from satisfied [OF True c IH(1) [OF refl True, rule_format, OF c refl]] show ?thesis .
      next
        case nsat: False
        show ?thesis
        proof (cases "is_dep_in_repos E dep")
          case True
          from run nsat True
          have c: "classify E k nm deps (s\<lparr>repo_deps' := repo_deps' s @ [dep]\<rparr>) = Some (b, s')"
            by (simp add: classify_in_repos)
          from in_repos [OF nsat True c IH(2) [OF refl nsat True, rule_format, OF c refl]]
          show ?thesis .
        next
          case nrepo: False
          show ?thesis
          proof (cases "recursion_target E dep s")
            case None
            with nsat nrepo run missing [OF nsat nrepo None, of k nm deps] show ?thesis
              by (simp add: classify_missing)
          next
            case (Some a)
            obtain t s1 where a: "a = (t, s1)" by (cases a)
            note tg = Some [unfolded a]
            from run obtain c s2 where
              d: "dfs E k t s1 = Some (c, s2)"
              and r: "if c then classify E k nm deps s2 = Some (b, s') else (b, s') = (False, s2)"
              by (auto simp: classify_recurse [OF nsat nrepo tg] split: option.splits if_splits)
            have both: "P k t s1 c s2 \<and> (c \<longrightarrow> Q k nm deps s2 b s')"
            proof (cases "cached_package s (strip_version dep)")
              case cp: True
              with tg have ts: "t = strip_version dep" "s1 = s" by (auto simp: recursion_target_def)
              from d ts have d': "dfs E k (strip_version dep) s = Some (c, s2)" by simp
              have "P k t s1 c s2"
                using IH(3) [OF refl nsat nrepo cp, rule_format, OF d' refl] ts by simp
              moreover have "c \<longrightarrow> Q k nm deps s2 b s'"
              proof
                assume c
                with r have cl: "classify E k nm deps s2 = Some (b, s')" by simp
                from IH(4) [OF refl nsat nrepo cp d' refl \<open>c\<close>, rule_format, OF cl refl]
                show "Q k nm deps s2 b s'" .
              qed
              ultimately show ?thesis by simp
            next
              case cp: False
              with tg have fp: "(t, s1) = find_provider E (strip_version dep) s" and tn: "t \<noteq> []"
                by (auto simp: recursion_target_def split: prod.splits if_splits)
              have "P k t s1 c s2"
                using IH(5) [OF refl nsat nrepo cp fp tn, rule_format, OF d refl] .
              moreover have "c \<longrightarrow> Q k nm deps s2 b s'"
              proof
                assume c
                with r have cl: "classify E k nm deps s2 = Some (b, s')" by simp
                from IH(6) [OF refl nsat nrepo cp fp tn d refl \<open>c\<close>, rule_format, OF cl refl]
                show "Q k nm deps s2 b s'" .
              qed
              ultimately show ?thesis by simp
            qed
            show ?thesis
            proof (cases c)
              case False
              with r d both have dt: "dfs E k t s1 = Some (False, s2)" and pd: "P k t s1 False s2"
                and bs: "b = False" "s' = s2" by simp_all
              from failed [OF nsat nrepo tg dt pd, of nm deps] bs show ?thesis by simp
            next
              case True
              with r have cl: "classify E k nm deps s2 = Some (b, s')" by simp
              from d True have dt: "dfs E k t s1 = Some (True, s2)" by simp
              from both True have pd: "P k t s1 True s2" and q: "Q k nm deps s2 b s'" by simp_all
              from recursed [OF nsat nrepo tg dt pd cl q] show ?thesis .
            qed
          qed
        qed
      qed
    qed
  qed
  then show "dfs E k nm s = Some (b, s') \<Longrightarrow> P k nm s b s'"
    and "classify E k nm deps s = Some (b, s') \<Longrightarrow> Q k nm deps s b s'"
    by simp_all
qed

lemmas dfs_classify_result_induct [consumes 1,
    case_names visited in_stack not_found installed resolved dep_failed
      nil satisfied in_repos missing recursed failed] =
  dfs_classify_result_induct_raw(1) [rotated -1]
  dfs_classify_result_induct_raw(2) [rotated -1]

subsection \<open>More depth changes no result\<close>

lemma fuel_Suc:
  "dfs E k nm s = Some (b, s') \<Longrightarrow> dfs E (Suc k) nm s = Some (b, s')"
  "classify E k nm deps s = Some (b, s') \<Longrightarrow> classify E (Suc k) nm deps s = Some (b, s')"
proof (induction rule: dfs_classify_result_induct)
  case (visited k nm s)
  then show ?case by (simp add: dfs_visited)
next
  case (in_stack k nm s)
  then show ?case by (simp add: dfs_in_stack)
next
  case (not_found k nm s)
  then show ?case by (simp add: dfs_not_found)
next
  case (installed k nm s p s2)
  then show ?case by (simp add: dfs_installed)
next
  case (resolved k nm s p s2 s3)
  then show ?case by (simp add: dfs_descend)
next
  case (dep_failed k nm s p s2 s3)
  then show ?case by (simp add: dfs_descend)
next
  case (nil k nm s)
  then show ?case by simp
next
  case (satisfied k nm dep deps s b s')
  then show ?case by (simp add: classify_satisfied)
next
  case (in_repos k nm dep deps s b s')
  then show ?case by (simp add: classify_in_repos)
next
  case (missing k nm dep deps s)
  then show ?case by (simp add: classify_missing)
next
  case (recursed k nm dep deps s t s1 s2 b s')
  then show ?case by (simp add: classify_recurse)
next
  case (failed k nm dep deps s t s1 s2)
  then show ?case by (simp add: classify_recurse)
qed

lemma dfs_fuel_mono:
  assumes "dfs E k nm s = Some (b, s')" and "k \<le> fuel"
  shows "dfs E fuel nm s = Some (b, s')"
proof -
  have "dfs E (k + d) nm s = Some (b, s')" for d
    by (induction d) (simp_all add: assms(1) fuel_Suc(1))
  from this [of "fuel - k"] assms(2) show ?thesis by simp
qed

subsection \<open>A failure unwinds every enclosing call\<close>

lemma classify_append:
  "classify E k nm (xs @ ys) s =
     (case classify E k nm xs s of
        None \<Rightarrow> None
      | Some (b, s1) \<Rightarrow> if b then classify E k nm ys s1 else Some (False, s1))"
proof (induction xs arbitrary: s)
  case Nil
  show ?case by simp
next
  case (Cons dep xs)
  show ?case
  proof (cases "is_dep_satisfied E dep")
    case True
    then show ?thesis by (simp add: classify_satisfied Cons)
  next
    case nsat: False
    show ?thesis
    proof (cases "is_dep_in_repos E dep")
      case True
      with nsat show ?thesis by (simp add: classify_in_repos Cons)
    next
      case nrepo: False
      show ?thesis
      proof (cases "recursion_target E dep s")
        case None
        with nsat nrepo show ?thesis by (simp add: classify_missing)
      next
        case (Some a)
        obtain t s1 where a: "a = (t, s1)" by (cases a)
        note tg = Some [unfolded a]
        show ?thesis
          by (simp add: classify_recurse [OF nsat nrepo tg] Cons split: option.splits)
      qed
    qed
  qed
qed

lemma dfs_fails_at_dep:
  assumes c: "classifies E k nm s dep s3"
    and f: "\<And>rest. classify E k nm (dep # rest) s3 = Some (False, sf)"
  shows "dfs E (Suc k) nm s = Some (False, sf)"
proof -
  from c obtain p s2 before rest where
    nv: "nm \<notin> visited' s" and ns: "nm \<notin> in_stack' s"
    and fi: "fetch_info E nm (enter_stack nm s) = Some (p, s2)"
    and nsat: "\<not> is_dep_satisfied E (name p @ ''='' @ version p)"
    and deps: "depends p @ makedepends p = before @ dep # rest"
    and pre: "classify E k nm before (prefetch E (depends p @ makedepends p) s2) = Some (True, s3)"
    unfolding classifies_def by blast
  have "classify E k nm (before @ dep # rest) (prefetch E (depends p @ makedepends p) s2)
          = Some (False, sf)"
    by (simp add: classify_append pre f)
  then show ?thesis
    by (simp add: dfs_descend [OF nv ns fi nsat] deps)
qed

lemma reaches_failure_unwinds:
  "reaches E k nm s path k' nm' s' \<Longrightarrow> dfs E k' nm' s' = Some (False, sf) \<Longrightarrow>
     dfs E k nm s = Some (False, sf)"
proof (induction rule: reaches.induct)
  case (here k nm s)
  then show ?case .
next
  case (through k nm s dep s3 t s4 path k' nm' s')
  from through.IH [OF through.prems] have "dfs E k t s4 = Some (False, sf)" .
  then have "classify E k nm (dep # rest) s3 = Some (False, sf)" for rest
    by (simp add: classify_recurse [OF through.hyps(2,3,4)])
  from dfs_fails_at_dep [OF through.hyps(1) this] show ?case .
qed

subsection \<open>What each step does to the stack and to the visited set\<close>

lemma enter_stack_fields [simp]:
  "in_stack' (enter_stack nm s) = insert nm (in_stack' s)"
  "visited' (enter_stack nm s) = visited' s"
  "build_order' (enter_stack nm s) = build_order' s"
  "aur_cache' (enter_stack nm s) = aur_cache' s"
  by (simp_all add: enter_stack_def log_msg_def)

lemma fetch_info_fields:
  assumes "fetch_info E nm s = Some (p, s2)"
  shows "in_stack' s2 = in_stack' s" "visited' s2 = visited' s" "build_order' s2 = build_order' s"
    "aur_cache' s2 = (aur_cache' s)(nm \<mapsto> p)"
  using assms by (auto simp: fetch_info_def Let_def split: option.splits if_splits)

lemma prefetch_fields [simp]:
  "in_stack' (prefetch E deps s) = in_stack' s"
  "visited' (prefetch E deps s) = visited' s"
  "build_order' (prefetch E deps s) = build_order' s"
  by (simp_all add: prefetch_def log_msg_def Let_def)

lemma find_provider_fields [simp]:
  "in_stack' (snd (find_provider E d s)) = in_stack' s"
  "visited' (snd (find_provider E d s)) = visited' s"
  "build_order' (snd (find_provider E d s)) = build_order' s"
  by (simp_all add: find_provider_def log_msg_def Let_def split: option.splits)

lemma recursion_target_fields:
  assumes "recursion_target E dep s = Some (t, s1)"
  shows "in_stack' s1 = in_stack' s" "visited' s1 = visited' s" "build_order' s1 = build_order' s"
proof -
  from assms have "s1 = s \<or> s1 = snd (find_provider E (strip_version dep) s)"
    by (auto simp: recursion_target_def split: if_splits prod.splits)
  then show "in_stack' s1 = in_stack' s" "visited' s1 = visited' s"
    "build_order' s1 = build_order' s"
    by auto
qed

lemma finish_fields [simp]:
  "in_stack' (finish nm p s) = in_stack' s - {nm}"
  "visited' (finish nm p s) = insert nm (visited' s)"
  "build_order' (finish nm p s) = build_order' s @ [p]"
  "aur_cache' (finish nm p s) = aur_cache' s"
  by (simp_all add: finish_def log_msg_def)

lemma skip_installed_fields [simp]:
  "in_stack' (skip_installed nm p s) = in_stack' s - {nm}"
  "visited' (skip_installed nm p s) = insert nm (visited' s)"
  "build_order' (skip_installed nm p s) = build_order' s"
  "aur_cache' (skip_installed nm p s) = aur_cache' s"
  by (simp_all add: skip_installed_def log_msg_def Let_def)

text \<open>
  A call that succeeds leaves the stack as it found it and marks no name of that stack
  visited.
\<close>

lemma success_keeps_stack:
  "dfs E k nm s = Some (b, s') \<Longrightarrow>
     b \<longrightarrow> in_stack' s' = in_stack' s \<and> visited' s' \<inter> in_stack' s \<subseteq> visited' s"
  "classify E k nm deps s = Some (b, s') \<Longrightarrow>
     b \<longrightarrow> in_stack' s' = in_stack' s \<and> visited' s' \<inter> in_stack' s \<subseteq> visited' s"
proof (induction rule: dfs_classify_result_induct)
  case (visited k nm s)
  show ?case by simp
next
  case (in_stack k nm s)
  show ?case by simp
next
  case (not_found k nm s)
  show ?case by simp
next
  case (installed k nm s p s2)
  with fetch_info_fields [OF installed(3)] show ?case by auto
next
  case (resolved k nm s p s2 s3)
  with fetch_info_fields [OF resolved(3)] show ?case by auto
next
  case (dep_failed k nm s p s2 s3)
  show ?case by simp
next
  case (nil k nm s)
  show ?case by simp
next
  case (satisfied k nm dep deps s b s')
  then show ?case by simp
next
  case (in_repos k nm dep deps s b s')
  then show ?case by simp
next
  case (missing k nm dep deps s)
  show ?case by simp
next
  case (recursed k nm dep deps s t s1 s2 b s')
  with recursion_target_fields [OF recursed(3)] show ?case by auto
next
  case (failed k nm dep deps s t s1 s2)
  show ?case by simp
qed

lemma classifies_stack:
  assumes "classifies E k nm s dep s3"
  shows "in_stack' s3 = insert nm (in_stack' s)"
    and "visited' s3 \<inter> insert nm (in_stack' s) \<subseteq> visited' s"
proof -
  from assms obtain p s2 before rest where
    fi: "fetch_info E nm (enter_stack nm s) = Some (p, s2)"
    and pre: "classify E k nm before (prefetch E (depends p @ makedepends p) s2) = Some (True, s3)"
    unfolding classifies_def by blast
  from success_keeps_stack(2) [OF pre] fetch_info_fields [OF fi]
  show "in_stack' s3 = insert nm (in_stack' s)"
    and "visited' s3 \<inter> insert nm (in_stack' s) \<subseteq> visited' s"
    by auto
qed

lemma reaches_stack:
  "reaches E k nm s path k' nm' s' \<Longrightarrow>
     in_stack' s' = in_stack' s \<union> set path
     \<and> visited' s' \<inter> in_stack' s \<subseteq> visited' s
     \<and> set path \<inter> visited' s' = {}"
proof (induction rule: reaches.induct)
  case (here k nm s)
  show ?case by simp
next
  case (through k nm s dep s3 t s4 path k' nm' s')
  from through.hyps(1) have "nm \<notin> visited' s"
    unfolding classifies_def by blast
  with classifies_stack [OF through.hyps(1)] recursion_target_fields [OF through.hyps(4)]
    through.IH
  show ?case by auto
qed

subsection \<open>Cycles\<close>

lemma resolve_of_dfs:
  assumes "dfs E fuel nm (start nm s0) = Some (b, s1)"
  shows "\<exists>r s2. resolve E fuel nm s0 = Some (r, s2) \<and> ok r = b \<and> error r = error' s1"
  using assms by (simp add: resolve_def start_def split: prod.splits)

text \<open>
  C2 as amended. When the traversal from the root, following dependencies that are
  neither satisfied locally nor available in a repository, comes back to a name that is
  still in progress (a name on the path of calls that leads to it), \<^verbatim>\<open>resolve\<close>
  returns \<open>ok = False\<close> and the error names that package, with any depth that is
  enough for the path. A name that is already visited is another case: \<^verbatim>\<open>dfs\<close>
  returns \<open>True\<close> at once and changes nothing.
\<close>

theorem circular_dependency_detected:
  assumes "reaches E k root (start root s0) path (Suc j) nm s"
    and "nm \<in> set path"
    and "k \<le> fuel"
  shows "(\<exists>r s2. resolve E fuel root s0 = Some (r, s2) \<and> \<not> ok r
            \<and> error r = ''Circular dependency detected: '' @ nm)
         \<and> (\<forall>v s1 i. v \<in> visited' s1 \<longrightarrow> dfs E (Suc i) v s1 = Some (True, s1))"
proof -
  from reaches_stack [OF assms(1)] assms(2)
  have "nm \<in> in_stack' s" and "nm \<notin> visited' s" by auto
  then have "dfs E (Suc j) nm s
      = Some (False, s\<lparr>error' := ''Circular dependency detected: '' @ nm\<rparr>)"
    by (simp add: dfs_in_stack)
  from reaches_failure_unwinds [OF assms(1) this]
  have "dfs E k root (start root s0)
      = Some (False, s\<lparr>error' := ''Circular dependency detected: '' @ nm\<rparr>)" .
  from resolve_of_dfs [OF dfs_fuel_mono [OF this assms(3)]]
  show ?thesis by (auto simp: dfs_visited)
qed

lemma Some_the: "x \<noteq> None \<Longrightarrow> x = Some (fst (the x), snd (the x))"
  by auto

lemma Some_the_True: "x \<noteq> None \<Longrightarrow> fst (the x) \<Longrightarrow> x = Some (True, snd (the x))"
  by auto

lemma recursion_target_cached:
  "cached_package s (strip_version dep) \<Longrightarrow> strip_version dep = t \<Longrightarrow>
     recursion_target E dep s = Some (t, s)"
  by (simp add: recursion_target_def)

lemma classifies_first:
  assumes "nm \<notin> visited' s" "nm \<notin> in_stack' s"
    and "fetch_info E nm (enter_stack nm s) \<noteq> None"
    and "\<not> is_dep_satisfied E (name (fst (the (fetch_info E nm (enter_stack nm s)))) @ ''=''
            @ version (fst (the (fetch_info E nm (enter_stack nm s)))))"
    and "depends (fst (the (fetch_info E nm (enter_stack nm s))))
           @ makedepends (fst (the (fetch_info E nm (enter_stack nm s)))) = before @ dep # rest"
    and "classify E k nm before
           (prefetch E (before @ dep # rest) (snd (the (fetch_info E nm (enter_stack nm s)))))
         = Some (True, s3)"
  shows "classifies E k nm s dep s3"
  unfolding classifies_def
  using assms Some_the [OF assms(3)]
  by (intro exI [of _ "fst (the (fetch_info E nm (enter_stack nm s)))"]
        exI [of _ "snd (the (fetch_info E nm (enter_stack nm s)))"]
        exI [of _ before] exI [of _ rest]) simp

theorem circular_dependency_detected_witness:
  "reaches ex_cycle (Suc (Suc (Suc 0))) ''A'' (start ''A'' fresh_resolver) [''A'', ''B'']
     (Suc 0) ''A'' ex_cycle_at_B
   \<and> ''A'' \<in> set [''A'', ''B'']
   \<and> (\<exists>r s2. resolve ex_cycle (Suc (Suc (Suc 0))) ''A'' fresh_resolver = Some (r, s2) \<and> \<not> ok r
            \<and> error r = ''Circular dependency detected: A'')"
proof -
  have cA: "classifies ex_cycle (Suc (Suc 0)) ''A'' (start ''A'' fresh_resolver) ''B'' ex_cycle_at_A"
    by (rule classifies_first [where before = "[]" and rest = "[]"])
       (code_simp, code_simp, code_simp, code_simp, code_simp, simp add: ex_cycle_at_A_def)
  have cB: "classifies ex_cycle (Suc 0) ''B'' ex_cycle_at_A ''A'' ex_cycle_at_B"
    by (rule classifies_first [where before = "[]" and rest = "[]"])
       (code_simp, code_simp, code_simp, code_simp, code_simp, simp add: ex_cycle_at_B_def)
  have tA: "recursion_target ex_cycle ''B'' ex_cycle_at_A = Some (''B'', ex_cycle_at_A)"
    by (rule recursion_target_cached; code_simp)
  have nA: "\<not> is_dep_satisfied ex_cycle ''B''" "\<not> is_dep_in_repos ex_cycle ''B''"
    by code_simp+
  have tB: "recursion_target ex_cycle ''A'' ex_cycle_at_B = Some (''A'', ex_cycle_at_B)"
    by (rule recursion_target_cached; code_simp)
  have nB: "\<not> is_dep_satisfied ex_cycle ''A''" "\<not> is_dep_in_repos ex_cycle ''A''"
    by code_simp+
  have r: "reaches ex_cycle (Suc (Suc (Suc 0))) ''A'' (start ''A'' fresh_resolver) [''A'', ''B'']
     (Suc 0) ''A'' ex_cycle_at_B"
    by (rule reaches.through [OF cA nA tA], rule reaches.through [OF cB nB tB],
        rule reaches.here)
  have m: "''A'' \<in> set [''A'', ''B'']" by simp
  from circular_dependency_detected [OF r m order_refl]
  have "\<exists>r s2. resolve ex_cycle (Suc (Suc (Suc 0))) ''A'' fresh_resolver = Some (r, s2) \<and> \<not> ok r
            \<and> error r = ''Circular dependency detected: '' @ ''A''"
    by (rule conjunct1)
  then have res: "\<exists>r s2. resolve ex_cycle (Suc (Suc (Suc 0))) ''A'' fresh_resolver = Some (r, s2) \<and> \<not> ok r
            \<and> error r = ''Circular dependency detected: A''"
    by simp
  show ?thesis by (intro conjI r m res)
qed

text \<open>
  C2 as stated fails: root \<open>A\<close> with \<open>A\<close> depending on \<open>B\<close> and \<open>B\<close> on \<open>A\<close>, both to
  be built, while an older \<open>A\<close> is installed. The dependency of \<open>B\<close> on \<open>A\<close> is then
  satisfied locally, and \<^verbatim>\<open>resolve\<close> returns \<open>ok = True\<close> with the build list \<open>B\<close>,
  \<open>A\<close>.
\<close>

theorem circular_dependency_counterexample:
  "map_option (ok \<circ> fst) (resolve ex_cycle_installed (Suc (Suc 0)) ''A'' fresh_resolver) = Some True
   \<and> map_option (map name \<circ> aur_build_order \<circ> fst)
        (resolve ex_cycle_installed (Suc (Suc 0)) ''A'' fresh_resolver) = Some [''B'', ''A'']
   \<and> depends (info ex_cycle_installed ''A'') = [''B'']
   \<and> depends (info ex_cycle_installed ''B'') = [''A'']"
  by code_simp

subsection \<open>A dependency that nothing provides\<close>

text \<open>
  C3 as amended. When the traversal from the root reaches a package \<open>nm\<close> whose
  second loop gets to a dependency \<open>dep\<close> (every dependency classified before it, on
  the way from the root, with success) that is not satisfied locally, not available in
  a repository, not in the cache of directory packages under its bare name, and for
  which \<^verbatim>\<open>find_provider\<close> finds no provider, \<^verbatim>\<open>resolve\<close> returns \<open>ok = False\<close> and
  the error names the dependency string and \<open>nm\<close>: every enclosing call returns the
  failure as it is, with any depth that is enough for the path.
\<close>

theorem missing_dependency_fails:
  assumes "reaches E k root (start root s0) path (Suc j) nm s"
    and "classifies E j nm s dep s3"
    and "\<not> is_dep_satisfied E dep" and "\<not> is_dep_in_repos E dep"
    and "\<not> cached_package s3 (strip_version dep)"
    and "fst (find_provider E (strip_version dep) s3) = []"
    and "k \<le> fuel"
  shows "\<exists>r s2. resolve E fuel root s0 = Some (r, s2) \<and> \<not> ok r
           \<and> error r = ''Dependency not found anywhere: '' @ dep @ '' (required by '' @ nm @ '')''"
proof -
  let ?sf = "(snd (find_provider E (strip_version dep) s3))
               \<lparr>error' := ''Dependency not found anywhere: '' @ dep
                           @ '' (required by '' @ nm @ '')''\<rparr>"
  from assms(5,6) have "recursion_target E dep s3 = None"
    by (cases "find_provider E (strip_version dep) s3") (simp add: recursion_target_def)
  then have "classify E j nm (dep # rest) s3 = Some (False, ?sf)" for rest
    by (simp add: classify_missing [OF assms(3,4)])
  from dfs_fails_at_dep [OF assms(2) this]
  have "dfs E (Suc j) nm s = Some (False, ?sf)" .
  from reaches_failure_unwinds [OF assms(1) this]
  have "dfs E k root (start root s0) = Some (False, ?sf)" .
  from resolve_of_dfs [OF dfs_fuel_mono [OF this assms(7)]]
  show ?thesis by auto
qed

theorem missing_dependency_fails_witness:
  "reaches ex_missing (Suc (Suc 0)) ''app'' (start ''app'' fresh_resolver) [''app'']
     (Suc 0) ''lib'' ex_missing_at_app
   \<and> \<not> is_dep_satisfied ex_missing ''ghost>=2'' \<and> \<not> is_dep_in_repos ex_missing ''ghost>=2''
   \<and> (\<exists>s3. classifies ex_missing 0 ''lib'' ex_missing_at_app ''ghost>=2'' s3
          \<and> \<not> cached_package s3 (strip_version ''ghost>=2'')
          \<and> fst (find_provider ex_missing (strip_version ''ghost>=2'') s3) = [])
   \<and> (\<exists>r s2. resolve ex_missing (Suc (Suc 0)) ''app'' fresh_resolver = Some (r, s2) \<and> \<not> ok r
          \<and> error r = ''Dependency not found anywhere: ghost>=2 (required by lib)'')"
proof -
  let ?s3 = "snd (the (classify ex_missing 0 ''lib'' [''glibc''] ex_missing_at_lib))"
  have cA: "classifies ex_missing (Suc 0) ''app'' (start ''app'' fresh_resolver) ''lib''
      ex_missing_at_app"
    by (rule classifies_first [where before = "[]" and rest = "[]"])
       (code_simp, code_simp, code_simp, code_simp, code_simp, simp add: ex_missing_at_app_def)
  have tA: "recursion_target ex_missing ''lib'' ex_missing_at_app = Some (''lib'', ex_missing_at_app)"
    by (rule recursion_target_cached; code_simp)
  have nA: "\<not> is_dep_satisfied ex_missing ''lib''" "\<not> is_dep_in_repos ex_missing ''lib''"
    by code_simp+
  have r: "reaches ex_missing (Suc (Suc 0)) ''app'' (start ''app'' fresh_resolver) [''app'']
     (Suc 0) ''lib'' ex_missing_at_app"
    by (rule reaches.through [OF cA nA tA], rule reaches.here)
  have pre: "classify ex_missing 0 ''lib'' [''glibc''] ex_missing_at_lib = Some (True, ?s3)"
    by (rule Some_the_True; code_simp)
  have cL: "classifies ex_missing 0 ''lib'' ex_missing_at_app ''ghost>=2'' ?s3"
  proof (rule classifies_first [where before = "[''glibc'']" and rest = "[]"])
    show "classify ex_missing 0 ''lib'' [''glibc'']
            (prefetch ex_missing ([''glibc''] @ ''ghost>=2'' # [])
               (snd (the (fetch_info ex_missing ''lib'' (enter_stack ''lib'' ex_missing_at_app)))))
          = Some (True, ?s3)"
      using pre unfolding ex_missing_at_lib_def by simp
  qed code_simp+
  have d: "\<not> is_dep_satisfied ex_missing ''ghost>=2''" "\<not> is_dep_in_repos ex_missing ''ghost>=2''"
    "\<not> cached_package ?s3 (strip_version ''ghost>=2'')"
    "fst (find_provider ex_missing (strip_version ''ghost>=2'') ?s3) = []"
    by code_simp+
  from missing_dependency_fails [OF r cL d order_refl]
  have "\<exists>r s2. resolve ex_missing (Suc (Suc 0)) ''app'' fresh_resolver = Some (r, s2) \<and> \<not> ok r
          \<and> error r = ''Dependency not found anywhere: '' @ ''ghost>=2'' @ '' (required by '' @ ''lib'' @ '')''" .
  then have res: "\<exists>r s2. resolve ex_missing (Suc (Suc 0)) ''app'' fresh_resolver = Some (r, s2) \<and> \<not> ok r
          \<and> error r = ''Dependency not found anywhere: ghost>=2 (required by lib)''"
    by simp
  have cl: "\<exists>s3. classifies ex_missing 0 ''lib'' ex_missing_at_app ''ghost>=2'' s3
          \<and> \<not> cached_package s3 (strip_version ''ghost>=2'')
          \<and> fst (find_provider ex_missing (strip_version ''ghost>=2'') s3) = []"
    by (rule exI [of _ ?s3]) (intro conjI cL d(3) d(4))
  show ?thesis
    by (intro conjI r d(1) d(2) cl res)
qed

text \<open>
  C3 as stated fails: a dependency that nothing provides fails the resolution only
  when the traversal gets to it. Root \<open>z\<close> declares \<open>libz\<close>, which is not
  installed, in no repository, unknown to the directory and provided by no package; but
  \<open>z\<close> is installed at exactly the version the directory reports, so its
  dependencies are never examined and \<^verbatim>\<open>resolve\<close> returns \<open>ok = True\<close> without an
  error.
\<close>

theorem missing_dependency_counterexample:
  "map_option (ok \<circ> fst) (resolve ex_installed (Suc (Suc 0)) ''z'' fresh_resolver) = Some True
   \<and> map_option (error \<circ> fst) (resolve ex_installed (Suc (Suc 0)) ''z'' fresh_resolver) = Some []
   \<and> depends (info ex_installed ''z'') = [''libz'']
   \<and> \<not> is_dep_satisfied ex_installed ''libz'' \<and> \<not> is_dep_in_repos ex_installed ''libz''
   \<and> name (info ex_installed ''libz'') = []
   \<and> info_batch ex_installed [''libz''] = []
   \<and> search_provides ex_installed ''libz'' = []"
  by code_simp

subsection \<open>A dependency that is already visited or in progress\<close>

text \<open>
  C7 as amended. The first loop, which collects the names for the batch lookup, skips a
  dependency whose bare name is visited or in progress. The second loop, which
  classifies, has no such skip. For a dependency whose bare name is visited (and so has
  its package in the cache) it goes on with the next dependency without a failure and
  without resolving anything again: the dependency is recorded as satisfied or as a
  repository dependency if it is one, and otherwise \<^verbatim>\<open>dfs\<close> returns at once with the
  members unchanged. For a dependency whose bare name is in progress and that is neither
  satisfied nor in a repository, it calls \<^verbatim>\<open>dfs\<close>, which fails with the circular
  dependency, and the enclosing package fails with it.
\<close>

theorem visited_or_in_progress_dependency:
  "(strip_version dep \<in> visited' s \<or> strip_version dep \<in> in_stack' s \<longrightarrow>
      unknown_names E s (dep # deps) = unknown_names E s deps)
   \<and> (strip_version dep \<in> visited' s \<and> cached_package s (strip_version dep) \<longrightarrow>
        classify E (Suc k) nm (dep # deps) s =
          classify E (Suc k) nm deps
            (if is_dep_satisfied E dep then s\<lparr>satisfied_deps' := satisfied_deps' s @ [dep]\<rparr>
             else if is_dep_in_repos E dep then s\<lparr>repo_deps' := repo_deps' s @ [dep]\<rparr>
             else s))
   \<and> (strip_version dep \<in> in_stack' s \<and> strip_version dep \<notin> visited' s
        \<and> cached_package s (strip_version dep)
        \<and> \<not> is_dep_satisfied E dep \<and> \<not> is_dep_in_repos E dep \<longrightarrow>
        classify E (Suc k) nm (dep # deps) s =
          Some (False, s\<lparr>error' := ''Circular dependency detected: '' @ strip_version dep\<rparr>))"
proof (intro conjI impI)
  assume "strip_version dep \<in> visited' s \<or> strip_version dep \<in> in_stack' s"
  then show "unknown_names E s (dep # deps) = unknown_names E s deps"
    by (simp add: Let_def)
next
  assume a: "strip_version dep \<in> visited' s \<and> cached_package s (strip_version dep)"
  show "classify E (Suc k) nm (dep # deps) s =
          classify E (Suc k) nm deps
            (if is_dep_satisfied E dep then s\<lparr>satisfied_deps' := satisfied_deps' s @ [dep]\<rparr>
             else if is_dep_in_repos E dep then s\<lparr>repo_deps' := repo_deps' s @ [dep]\<rparr>
             else s)"
  proof (cases "is_dep_satisfied E dep")
    case True
    then show ?thesis by (simp add: classify_satisfied)
  next
    case nsat: False
    show ?thesis
    proof (cases "is_dep_in_repos E dep")
      case True
      with nsat show ?thesis by (simp add: classify_in_repos)
    next
      case nrepo: False
      from a have tg: "recursion_target E dep s = Some (strip_version dep, s)"
        by (simp add: recursion_target_cached)
      from a have "dfs E (Suc k) (strip_version dep) s = Some (True, s)"
        by (simp add: dfs_visited)
      with nsat nrepo show ?thesis
        by (simp add: classify_recurse [OF nsat nrepo tg])
    qed
  qed
next
  assume a: "strip_version dep \<in> in_stack' s \<and> strip_version dep \<notin> visited' s
        \<and> cached_package s (strip_version dep)
        \<and> \<not> is_dep_satisfied E dep \<and> \<not> is_dep_in_repos E dep"
  then have tg: "recursion_target E dep s = Some (strip_version dep, s)"
    by (simp add: recursion_target_cached)
  from a have "dfs E (Suc k) (strip_version dep) s
      = Some (False, s\<lparr>error' := ''Circular dependency detected: '' @ strip_version dep\<rparr>)"
    by (simp add: dfs_in_stack)
  with a show "classify E (Suc k) nm (dep # deps) s =
          Some (False, s\<lparr>error' := ''Circular dependency detected: '' @ strip_version dep\<rparr>)"
    by (simp add: classify_recurse [OF _ _ tg])
qed

theorem visited_or_in_progress_dependency_witness:
  "strip_version ''c'' \<in> visited' ex_diamond_at_b
   \<and> cached_package ex_diamond_at_b (strip_version ''c'')
   \<and> unknown_names ex_diamond ex_diamond_at_b [''c''] = []
   \<and> classify ex_diamond (Suc 0) ''b'' [''c''] ex_diamond_at_b = Some (True, ex_diamond_at_b)
   \<and> strip_version ''A'' \<in> in_stack' ex_cycle_at_B
   \<and> strip_version ''A'' \<notin> visited' ex_cycle_at_B
   \<and> cached_package ex_cycle_at_B (strip_version ''A'')
   \<and> \<not> is_dep_satisfied ex_cycle ''A'' \<and> \<not> is_dep_in_repos ex_cycle ''A''
   \<and> unknown_names ex_cycle ex_cycle_at_B [''A''] = []
   \<and> classify ex_cycle (Suc 0) ''B'' [''A''] ex_cycle_at_B =
        Some (False, ex_cycle_at_B\<lparr>error' := ''Circular dependency detected: '' @ strip_version ''A''\<rparr>)"
proof -
  have c: "strip_version ''c'' \<in> visited' ex_diamond_at_b"
    "cached_package ex_diamond_at_b (strip_version ''c'')"
    "\<not> is_dep_satisfied ex_diamond ''c''" "\<not> is_dep_in_repos ex_diamond ''c''"
    by code_simp+
  have a: "strip_version ''A'' \<in> in_stack' ex_cycle_at_B"
    "strip_version ''A'' \<notin> visited' ex_cycle_at_B"
    "cached_package ex_cycle_at_B (strip_version ''A'')"
    "\<not> is_dep_satisfied ex_cycle ''A''" "\<not> is_dep_in_repos ex_cycle ''A''"
    by code_simp+
  note t1 = visited_or_in_progress_dependency
    [of "''c''" ex_diamond_at_b ex_diamond "[]" 0 "''b''"]
  note t2 = visited_or_in_progress_dependency
    [of "''A''" ex_cycle_at_B ex_cycle "[]" 0 "''B''"]
  from t1 c have u1: "unknown_names ex_diamond ex_diamond_at_b [''c''] = []"
    and k1: "classify ex_diamond (Suc 0) ''b'' [''c''] ex_diamond_at_b = Some (True, ex_diamond_at_b)"
    by simp_all
  from t2 a have u2: "unknown_names ex_cycle ex_cycle_at_B [''A''] = []"
    and k2: "classify ex_cycle (Suc 0) ''B'' [''A''] ex_cycle_at_B =
        Some (False, ex_cycle_at_B\<lparr>error' := ''Circular dependency detected: '' @ strip_version ''A''\<rparr>)"
    by simp_all
  show ?thesis
    by (intro conjI c(1) c(2) u1 k1 a u2 k2)
qed

text \<open>
  C7 as stated fails for a dependency in progress: in the run for root \<open>A\<close> with \<open>A\<close>
  depending on \<open>B\<close> and \<open>B\<close> on \<open>A\<close>, when the second loop of \<open>B\<close> comes to the
  dependency \<open>A\<close>, \<open>A\<close> is on the stack, and the loop does not go past it: it returns
  \<open>False\<close> with the circular dependency, and so does \<^verbatim>\<open>resolve\<close>.
\<close>

theorem in_progress_dependency_counterexample:
  "strip_version ''A'' \<in> in_stack' ex_cycle_at_B
   \<and> map_option fst (classify ex_cycle (Suc 0) ''B'' [''A''] ex_cycle_at_B) = Some False
   \<and> map_option (error' \<circ> snd) (classify ex_cycle (Suc 0) ''B'' [''A''] ex_cycle_at_B)
        = Some ''Circular dependency detected: A''
   \<and> map_option (ok \<circ> fst) (resolve ex_cycle (Suc (Suc (Suc 0))) ''A'' fresh_resolver)
        = Some False"
  by code_simp

subsection \<open>Dependencies before dependents\<close>


lemma deps_first_rec_snoc:
  "deps_first_rec E (xs @ [p]) \<longleftrightarrow>
     deps_first_rec E xs
     \<and> (\<forall>u \<in> set (xs @ [p]). \<forall>d \<in> set (depends u @ makedepends u).
           \<not> is_dep_satisfied E d \<longrightarrow> \<not> is_dep_in_repos E d \<longrightarrow> name p \<noteq> strip_version d)"
  by (induction xs) auto


subsection \<open>The cache\<close>

lemma cache_batch_lookup:
  "cache_batch batch c k = Some p \<Longrightarrow> (p \<in> set batch \<and> name p = k) \<or> c k = Some p"
proof (induction batch arbitrary: c)
  case Nil
  then show ?case by simp
next
  case (Cons a batch)
  from Cons.prems have "cache_batch batch (c(name a \<mapsto> a)) k = Some p" by simp
  from Cons.IH [OF this] show ?case
    by (cases "k = name a") auto
qed

lemma cache_batch_dom: "dom (cache_batch batch c) = dom c \<union> name ` set batch"
  by (induction batch arbitrary: c) auto

lemma unknown_names_complete:
  "d \<in> set deps \<Longrightarrow> \<not> is_dep_satisfied E d \<Longrightarrow> \<not> is_dep_in_repos E d \<Longrightarrow>
     strip_version d \<in> visited' s \<union> in_stack' s \<or> strip_version d \<in> dom (aur_cache' s)
     \<or> strip_version d \<in> set (unknown_names E s deps)"
  by (induction deps) (auto simp: Let_def)

lemma prefetch_cache:
  "aur_cache' (prefetch E deps s) =
     (if unknown_names E s deps \<noteq> []
      then cache_batch (info_batch E (unknown_names E s deps)) (aur_cache' s)
      else aur_cache' s)"
  by (simp add: prefetch_def Let_def log_msg_def)

lemma prefetch_dom: "dom (aur_cache' s) \<subseteq> dom (aur_cache' (prefetch E deps s))"
  by (auto simp: prefetch_cache cache_batch_dom)

lemma prefetch_cache_ok:
  assumes "cache_ok E s" and "consistent_directory E"
  shows "cache_ok E (prefetch E deps s)"
  unfolding cache_ok_def
proof (intro allI impI)
  fix k p
  assume a: "aur_cache' (prefetch E deps s) k = Some p"
  show "name p = k \<and> k \<noteq> [] \<and> known_name E k"
  proof (cases "aur_cache' s k = Some p")
    case True
    with assms(1) show ?thesis by (simp add: cache_ok_def)
  next
    case False
    with a have "p \<in> set (info_batch E (unknown_names E s deps))" and "name p = k"
      by (auto simp: prefetch_cache split: if_splits dest: cache_batch_lookup)
    moreover from this assms(2) have "k \<noteq> []"
      unfolding consistent_directory_def by (metis image_eqI)
    ultimately show ?thesis
      unfolding known_name_def by blast
  qed
qed

lemma prefetch_fetches_known:
  assumes "consistent_directory E"
    and "visited' s \<union> in_stack' s \<subseteq> dom (aur_cache' s)"
    and "d \<in> set deps" "\<not> is_dep_satisfied E d" "\<not> is_dep_in_repos E d"
    and "known_name E (strip_version d)"
  shows "strip_version d \<in> dom (aur_cache' (prefetch E deps s))"
proof -
  from unknown_names_complete [OF assms(3,4,5), of s] assms(2)
  consider "strip_version d \<in> dom (aur_cache' s)"
    | "strip_version d \<in> set (unknown_names E s deps)"
    by auto
  then show ?thesis
  proof cases
    case 1
    with prefetch_dom [of s E deps] show ?thesis by auto
  next
    case 2
    with assms(1,6) have "strip_version d \<in> name ` set (info_batch E (unknown_names E s deps))"
      unfolding consistent_directory_def by blast
    moreover from 2 have "unknown_names E s deps \<noteq> []" by auto
    ultimately show ?thesis
      by (simp add: prefetch_cache cache_batch_dom)
  qed
qed

lemma fetch_info_cache_ok:
  assumes "cache_ok E s" and "consistent_directory E" and "fetch_info E nm s = Some (p, s2)"
  shows "cache_ok E s2" and "name p = nm" and "aur_cache' s2 nm = Some p"
    and "dom (aur_cache' s2) = insert nm (dom (aur_cache' s))"
proof -
  have c: "aur_cache' s2 = (aur_cache' s)(nm \<mapsto> p)"
    by (rule fetch_info_fields(4) [OF assms(3)])
  show "aur_cache' s2 nm = Some p" and "dom (aur_cache' s2) = insert nm (dom (aur_cache' s))"
    by (simp_all add: c)
  have p: "name p = nm \<and> nm \<noteq> [] \<and> known_name E nm"
  proof (cases "aur_cache' s nm")
    case None
    with assms(3) have "p = info E nm" "name p \<noteq> []"
      by (auto simp: fetch_info_def Let_def split: if_splits)
    with assms(2) show ?thesis
      unfolding consistent_directory_def known_name_def by metis
  next
    case (Some q)
    with assms(3) have "q = p" by (simp add: fetch_info_def)
    with Some assms(1) show ?thesis by (simp add: cache_ok_def)
  qed
  then show "name p = nm" by simp
  from p assms(1) show "cache_ok E s2"
    by (auto simp: cache_ok_def c)
qed

lemma find_provider_cache:
  "aur_cache' (snd (find_provider E d s)) = aur_cache' s
   \<or> (\<exists>p \<in> set (search_provides E d).
        aur_cache' (snd (find_provider E d s)) = (aur_cache' s)(name p \<mapsto> p))"
proof (cases "provides_map' s d")
  case (Some memo)
  then show ?thesis by (simp add: find_provider_def)
next
  case None
  show ?thesis
  proof (cases "find (provides_dep d) (search_provides E d)")
    case nf: None
    with None show ?thesis by (simp add: find_provider_def Let_def log_msg_def)
  next
    case (Some p)
    then have "p \<in> set (search_provides E d)"
      by (auto simp: find_Some_iff)
    moreover from None Some
    have "aur_cache' (snd (find_provider E d s)) = (aur_cache' s)(name p \<mapsto> p)"
      by (simp add: find_provider_def Let_def log_msg_def)
    ultimately show ?thesis by blast
  qed
qed

lemma find_provider_cache_ok:
  assumes "cache_ok E s" and "consistent_directory E"
  shows "cache_ok E (snd (find_provider E d s))"
    and "dom (aur_cache' s) \<subseteq> dom (aur_cache' (snd (find_provider E d s)))"
proof -
  from find_provider_cache [of E d s]
  consider "aur_cache' (snd (find_provider E d s)) = aur_cache' s"
    | p where "p \<in> set (search_provides E d)"
        "aur_cache' (snd (find_provider E d s)) = (aur_cache' s)(name p \<mapsto> p)"
    by blast
  then have "cache_ok E (snd (find_provider E d s))
      \<and> dom (aur_cache' s) \<subseteq> dom (aur_cache' (snd (find_provider E d s)))"
  proof cases
    case 1
    with assms(1) show ?thesis by (simp add: cache_ok_def)
  next
    case 2
    from 2(1) assms(2) have "name p \<noteq> []"
      unfolding consistent_directory_def by (metis image_eqI)
    moreover from 2(1) have "known_name E (name p)"
      unfolding known_name_def by blast
    ultimately show ?thesis
      using assms(1) 2(2) by (auto simp: cache_ok_def)
  qed
  then show "cache_ok E (snd (find_provider E d s))"
    and "dom (aur_cache' s) \<subseteq> dom (aur_cache' (snd (find_provider E d s)))"
    by simp_all
qed

lemma recursion_target_cache_ok:
  assumes "cache_ok E s" and "consistent_directory E" and "recursion_target E dep s = Some (t, s1)"
  shows "cache_ok E s1" and "dom (aur_cache' s) \<subseteq> dom (aur_cache' s1)"
proof -
  from assms(3) have "s1 = s \<or> s1 = snd (find_provider E (strip_version dep) s)"
    by (auto simp: recursion_target_def split: if_splits prod.splits)
  with find_provider_cache_ok [OF assms(1,2), of "strip_version dep"] assms(1)
  show "cache_ok E s1" and "dom (aur_cache' s) \<subseteq> dom (aur_cache' s1)"
    by auto
qed

lemma recursion_target_name:
  assumes "cache_ok E s" and "recursion_target E dep s = Some (t, s1)"
  shows "t = strip_version dep \<or> strip_version dep \<notin> dom (aur_cache' s)"
proof (cases "cached_package s (strip_version dep)")
  case True
  with assms(2) show ?thesis by (simp add: recursion_target_def)
next
  case False
  with assms(1) have "aur_cache' s (strip_version dep) = None"
    by (cases "aur_cache' s (strip_version dep)") (auto simp: cached_package_def cache_ok_def)
  then show ?thesis by auto
qed

lemma resolver_inv_cong:
  "visited' s1 = visited' s \<Longrightarrow> in_stack' s1 = in_stack' s \<Longrightarrow>
   build_order' s1 = build_order' s \<Longrightarrow> aur_cache' s1 = aur_cache' s \<Longrightarrow>
     resolver_inv E s1 = resolver_inv E s"
  by (simp add: resolver_inv_def cache_ok_def)

lemma deps_done_mono: "deps_done E vis deps \<Longrightarrow> vis \<subseteq> vis2 \<Longrightarrow> deps_done E vis2 deps"
  unfolding deps_done_def by blast

subsection \<open>What a successful call keeps true of the members\<close>

lemma resolver_inv_installed:
  assumes cons: "consistent_directory E" and inv: "resolver_inv E s"
    and nv: "nm \<notin> visited' s" and ns: "nm \<notin> in_stack' s"
    and fi: "fetch_info E nm (enter_stack nm s) = Some (p, s2)"
  shows "resolver_inv E (skip_installed nm p s2)"
    and "dom (aur_cache' s) \<subseteq> dom (aur_cache' (skip_installed nm p s2))"
proof -
  from inv have co: "cache_ok E (enter_stack nm s)"
    by (simp add: resolver_inv_def cache_ok_def)
  note f = fetch_info_cache_ok [OF co cons fi] fetch_info_fields(1,2,3) [OF fi]
  from f(4) show "dom (aur_cache' s) \<subseteq> dom (aur_cache' (skip_installed nm p s2))"
    by auto
  have "cache_ok E (skip_installed nm p s2)"
    using f(1) by (simp add: cache_ok_def)
  moreover have "visited' (skip_installed nm p s2) \<union> in_stack' (skip_installed nm p s2)
      \<subseteq> dom (aur_cache' (skip_installed nm p s2))"
    using inv f by (auto simp: resolver_inv_def)
  moreover have "visited' (skip_installed nm p s2) \<inter> in_stack' (skip_installed nm p s2) = {}"
    using inv f ns by (auto simp: resolver_inv_def)
  moreover have "name ` set (build_order' (skip_installed nm p s2))
      \<subseteq> visited' (skip_installed nm p s2)"
    using inv f by (auto simp: resolver_inv_def)
  moreover have "\<forall>q \<in> set (build_order' (skip_installed nm p s2)).
      deps_done E (visited' (skip_installed nm p s2)) (depends q @ makedepends q)"
    using inv f by (auto simp: resolver_inv_def intro: deps_done_mono)
  moreover have "deps_first_rec E (build_order' (skip_installed nm p s2))"
    using inv f by (simp add: resolver_inv_def)
  ultimately show "resolver_inv E (skip_installed nm p s2)"
    unfolding resolver_inv_def by blast
qed

lemma resolver_inv_prefetched:
  assumes cons: "consistent_directory E" and inv: "resolver_inv E s"
    and nv: "nm \<notin> visited' s" and ns: "nm \<notin> in_stack' s"
    and fi: "fetch_info E nm (enter_stack nm s) = Some (p, s2)"
  shows "resolver_inv E (prefetch E deps s2)"
    and "deps_done E (dom (aur_cache' (prefetch E deps s2))) deps"
    and "dom (aur_cache' s) \<subseteq> dom (aur_cache' (prefetch E deps s2))"
    and "name p = nm" and "nm \<in> dom (aur_cache' (prefetch E deps s2))"
proof -
  let ?sp = "prefetch E deps s2"
  from inv have co: "cache_ok E (enter_stack nm s)"
    by (simp add: resolver_inv_def cache_ok_def)
  note f = fetch_info_cache_ok [OF co cons fi] fetch_info_fields(1,2,3) [OF fi]
  show "name p = nm" by (rule f(2))
  have d2: "visited' s2 \<union> in_stack' s2 \<subseteq> dom (aur_cache' s2)"
    using inv f by (auto simp: resolver_inv_def)
  have dsp: "dom (aur_cache' s2) \<subseteq> dom (aur_cache' ?sp)"
    by (rule prefetch_dom)
  with f(4) show "dom (aur_cache' s) \<subseteq> dom (aur_cache' ?sp)"
    and "nm \<in> dom (aur_cache' ?sp)" by auto
  show "deps_done E (dom (aur_cache' ?sp)) deps"
    unfolding deps_done_def
    using prefetch_fetches_known [OF cons d2] by blast
  have "cache_ok E ?sp"
    by (rule prefetch_cache_ok [OF f(1) cons])
  moreover have "visited' ?sp \<union> in_stack' ?sp \<subseteq> dom (aur_cache' ?sp)"
  proof -
    have "visited' ?sp \<union> in_stack' ?sp = visited' s2 \<union> in_stack' s2" by simp
    with d2 dsp show ?thesis by blast
  qed
  moreover have "visited' ?sp \<inter> in_stack' ?sp = {}"
    using inv f nv by (auto simp: resolver_inv_def)
  moreover have "name ` set (build_order' ?sp) \<subseteq> visited' ?sp"
    using inv f by (auto simp: resolver_inv_def)
  moreover have "\<forall>q \<in> set (build_order' ?sp).
      deps_done E (visited' ?sp) (depends q @ makedepends q)"
    using inv f by (auto simp: resolver_inv_def)
  moreover have "deps_first_rec E (build_order' ?sp)"
    using inv f by (simp add: resolver_inv_def)
  ultimately show "resolver_inv E ?sp"
    unfolding resolver_inv_def by blast
qed

lemma resolver_inv_finish:
  assumes inv: "resolver_inv E s3" and stk: "nm \<in> in_stack' s3"
    and nm: "name p = nm" and dd: "deps_done E (visited' s3) (depends p @ makedepends p)"
  shows "resolver_inv E (finish nm p s3)"
proof -
  from inv stk have nv: "nm \<notin> visited' s3" and kn: "known_name E nm"
    by (auto simp: resolver_inv_def cache_ok_def)
  have no: "\<forall>u \<in> set (build_order' s3 @ [p]). \<forall>d \<in> set (depends u @ makedepends u).
      \<not> is_dep_satisfied E d \<longrightarrow> \<not> is_dep_in_repos E d \<longrightarrow> name p \<noteq> strip_version d"
  proof (intro ballI impI)
    fix u d
    assume u: "u \<in> set (build_order' s3 @ [p])" and d: "d \<in> set (depends u @ makedepends u)"
      and r: "\<not> is_dep_satisfied E d" "\<not> is_dep_in_repos E d"
    from u inv dd have "deps_done E (visited' s3) (depends u @ makedepends u)"
      by (auto simp: resolver_inv_def)
    with d r have "strip_version d \<in> visited' s3 \<or> \<not> known_name E (strip_version d)"
      unfolding deps_done_def by blast
    with nv kn nm show "name p \<noteq> strip_version d" by auto
  qed
  have "cache_ok E (finish nm p s3)"
    using inv by (simp add: resolver_inv_def cache_ok_def)
  moreover have "visited' (finish nm p s3) \<union> in_stack' (finish nm p s3)
      \<subseteq> dom (aur_cache' (finish nm p s3))"
    using inv stk by (auto simp: resolver_inv_def)
  moreover have "visited' (finish nm p s3) \<inter> in_stack' (finish nm p s3) = {}"
    using inv by (auto simp: resolver_inv_def)
  moreover have "name ` set (build_order' (finish nm p s3)) \<subseteq> visited' (finish nm p s3)"
    using inv nm by (auto simp: resolver_inv_def)
  moreover have "\<forall>q \<in> set (build_order' (finish nm p s3)).
      deps_done E (visited' (finish nm p s3)) (depends q @ makedepends q)"
    using inv dd by (auto simp: resolver_inv_def intro: deps_done_mono)
  moreover have "deps_first_rec E (build_order' (finish nm p s3))"
    using inv no by (simp add: resolver_inv_def deps_first_rec_snoc)
  ultimately show ?thesis
    unfolding resolver_inv_def by blast
qed

lemma resolver_inv_target:
  assumes cons: "consistent_directory E" and inv: "resolver_inv E s"
    and tg: "recursion_target E dep s = Some (t, s1)"
  shows "resolver_inv E s1" and "dom (aur_cache' s) \<subseteq> dom (aur_cache' s1)"
proof -
  from inv have co: "cache_ok E s" by (simp add: resolver_inv_def)
  note c = recursion_target_cache_ok [OF co cons tg] recursion_target_fields [OF tg]
  show "dom (aur_cache' s) \<subseteq> dom (aur_cache' s1)" by (rule c(2))
  from inv c(2) have "visited' s \<union> in_stack' s \<subseteq> dom (aur_cache' s1)"
    unfolding resolver_inv_def by blast
  with inv c show "resolver_inv E s1"
    unfolding resolver_inv_def by simp
qed

lemma deps_done_Cons:
  "deps_done E vis (d # deps) \<longleftrightarrow>
     (\<not> is_dep_satisfied E d \<longrightarrow> \<not> is_dep_in_repos E d \<longrightarrow>
        strip_version d \<in> vis \<or> \<not> known_name E (strip_version d))
     \<and> deps_done E vis deps"
  by (auto simp: deps_done_def)

lemma invariant_kept:
  assumes cons: "consistent_directory E"
  shows "dfs E k nm s = Some (b, s') \<Longrightarrow>
      b \<longrightarrow> resolver_inv E s \<longrightarrow>
        resolver_inv E s' \<and> visited' s \<subseteq> visited' s'
        \<and> dom (aur_cache' s) \<subseteq> dom (aur_cache' s') \<and> nm \<in> visited' s'"
    and "classify E k nm deps s = Some (b, s') \<Longrightarrow>
      b \<longrightarrow> resolver_inv E s \<longrightarrow> deps_done E (dom (aur_cache' s)) deps \<longrightarrow>
        resolver_inv E s' \<and> visited' s \<subseteq> visited' s'
        \<and> dom (aur_cache' s) \<subseteq> dom (aur_cache' s') \<and> deps_done E (visited' s') deps"
proof (induction rule: dfs_classify_result_induct)
  case (visited k nm s)
  then show ?case by simp
next
  case (in_stack k nm s)
  show ?case by simp
next
  case (not_found k nm s)
  show ?case by simp
next
  case (installed k nm s p s2)
  show ?case
    using resolver_inv_installed [OF cons _ installed(1,2,3)]
      fetch_info_fields(2) [OF installed(3)]
    by auto
next
  case (resolved k nm s p s2 s3)
  let ?ds = "depends p @ makedepends p"
  show ?case
  proof (intro impI)
    assume inv: "resolver_inv E s"
    note pf = resolver_inv_prefetched(1,2,3,5) [OF cons inv resolved(1,2,3), of ?ds]
    note np = resolver_inv_prefetched(4) [OF cons inv resolved(1,2,3)]
    from resolved(6) pf(1,2) have
      i3: "resolver_inv E s3" and v3: "visited' (prefetch E ?ds s2) \<subseteq> visited' s3"
      and c3: "dom (aur_cache' (prefetch E ?ds s2)) \<subseteq> dom (aur_cache' s3)"
      and d3: "deps_done E (visited' s3) ?ds"
      by simp_all
    from success_keeps_stack(2) [OF resolved(5)] fetch_info_fields(1) [OF resolved(3)]
    have stk: "nm \<in> in_stack' s3" by simp
    have c: "dom (aur_cache' s) \<subseteq> dom (aur_cache' (finish nm p s3))"
      using order_trans [OF pf(3) c3] by simp
    have v: "visited' s \<subseteq> visited' (finish nm p s3)"
      using v3 fetch_info_fields(2) [OF resolved(3)] by auto
    have n: "nm \<in> visited' (finish nm p s3)" by simp
    from resolver_inv_finish [OF i3 stk np d3] v c n
    show "resolver_inv E (finish nm p s3) \<and> visited' s \<subseteq> visited' (finish nm p s3)
        \<and> dom (aur_cache' s) \<subseteq> dom (aur_cache' (finish nm p s3))
        \<and> nm \<in> visited' (finish nm p s3)"
      by (intro conjI)
  qed
next
  case (dep_failed k nm s p s2 s3)
  show ?case by simp
next
  case (nil k nm s)
  show ?case by (simp add: deps_done_def)
next
  case (satisfied k nm dep deps s b s')
  let ?s = "s\<lparr>satisfied_deps' := satisfied_deps' s @ [dep]\<rparr>"
  have "resolver_inv E ?s = resolver_inv E s"
    by (rule resolver_inv_cong) simp_all
  with satisfied show ?case
    by (auto simp: deps_done_Cons)
next
  case (in_repos k nm dep deps s b s')
  let ?s = "s\<lparr>repo_deps' := repo_deps' s @ [dep]\<rparr>"
  have "resolver_inv E ?s = resolver_inv E s"
    by (rule resolver_inv_cong) simp_all
  with in_repos show ?case
    by (auto simp: deps_done_Cons)
next
  case (missing k nm dep deps s)
  show ?case by simp
next
  case (recursed k nm dep deps s t s1 s2 b s')
  show ?case
  proof (intro impI)
    assume b: b and inv: "resolver_inv E s"
      and pf: "deps_done E (dom (aur_cache' s)) (dep # deps)"
    note tg = resolver_inv_target [OF cons inv recursed(3)]
    from recursed(5) tg(1) have
      i2: "resolver_inv E s2" and v2: "visited' s1 \<subseteq> visited' s2"
      and c2: "dom (aur_cache' s1) \<subseteq> dom (aur_cache' s2)" and t2: "t \<in> visited' s2"
      by simp_all
    have c02: "dom (aur_cache' s) \<subseteq> dom (aur_cache' s2)"
      by (rule order_trans [OF tg(2) c2])
    from pf have "deps_done E (dom (aur_cache' s)) deps"
      by (simp add: deps_done_Cons)
    then have "deps_done E (dom (aur_cache' s2)) deps"
      using c02 by (rule deps_done_mono)
    with recursed(7) b i2 have
      i': "resolver_inv E s'" and v': "visited' s2 \<subseteq> visited' s'"
      and c': "dom (aur_cache' s2) \<subseteq> dom (aur_cache' s')"
      and d': "deps_done E (visited' s') deps"
      by simp_all
    from inv have co: "cache_ok E s" by (simp add: resolver_inv_def)
    have v: "visited' s \<subseteq> visited' s'"
      using v2 v' recursion_target_fields(2) [OF recursed(3)] by auto
    have c: "dom (aur_cache' s) \<subseteq> dom (aur_cache' s')"
      by (rule order_trans [OF c02 c'])
    have "t \<in> visited' s'" using t2 v' by auto
    moreover from pf recursed(1,2)
    have "strip_version dep \<in> dom (aur_cache' s) \<or> \<not> known_name E (strip_version dep)"
      by (simp add: deps_done_Cons)
    ultimately
    have "strip_version dep \<in> visited' s' \<or> \<not> known_name E (strip_version dep)"
      using recursion_target_name [OF co recursed(3)] by blast
    with d' have d: "deps_done E (visited' s') (dep # deps)"
      by (simp add: deps_done_Cons)
    from i' v c d
    show "resolver_inv E s' \<and> visited' s \<subseteq> visited' s'
        \<and> dom (aur_cache' s) \<subseteq> dom (aur_cache' s') \<and> deps_done E (visited' s') (dep # deps)"
      by (intro conjI)
  qed
next
  case (failed k nm dep deps s t s1 s2)
  show ?case by simp
qed

subsection \<open>The order of the returned build list\<close>

lemma resolver_inv_start: "resolver_inv E (start root s0)"
  by (simp add: resolver_inv_def cache_ok_def start_def log_msg_def clear_members_def)






subsection \<open>What a failed resolution returns\<close>

lemma keeps_lists_refl: "keeps_lists s s"
  by (simp add: keeps_lists_def)

lemma keeps_lists_trans: "keeps_lists s s1 \<Longrightarrow> keeps_lists s1 s2 \<Longrightarrow> keeps_lists s s2"
  unfolding keeps_lists_def by (blast intro: prefix_order.trans)

lemma keeps_lists_same:
  "build_order' s' = build_order' s \<Longrightarrow> repo_deps' s' = repo_deps' s \<Longrightarrow>
   satisfied_deps' s' = satisfied_deps' s \<Longrightarrow> keeps_lists s s'"
  by (simp add: keeps_lists_def)

lemma keeps_lists_enter_stack: "keeps_lists s (enter_stack nm s)"
  by (simp add: keeps_lists_def enter_stack_def log_msg_def)

lemma keeps_lists_fetch_info: "fetch_info E nm s = Some (p, s2) \<Longrightarrow> keeps_lists s s2"
  by (auto simp: keeps_lists_def fetch_info_def Let_def split: option.splits if_splits)

lemma keeps_lists_prefetch: "keeps_lists s (prefetch E deps s)"
  by (simp add: keeps_lists_def prefetch_def log_msg_def Let_def)

lemma keeps_lists_find_provider: "keeps_lists s (snd (find_provider E d s))"
  by (simp add: keeps_lists_def find_provider_def log_msg_def Let_def split: option.splits)

lemma keeps_lists_recursion_target:
  assumes "recursion_target E dep s = Some (t, s1)"
  shows "keeps_lists s s1"
proof -
  from assms have "s1 = s \<or> s1 = snd (find_provider E (strip_version dep) s)"
    by (auto simp: recursion_target_def split: if_splits prod.splits)
  then show ?thesis
    by (auto simp: keeps_lists_refl keeps_lists_find_provider)
qed

lemma keeps_lists_finish: "keeps_lists s (finish nm p s)"
  by (simp add: keeps_lists_def finish_def log_msg_def)

lemma keeps_lists_skip_installed: "keeps_lists s (skip_installed nm p s)"
  by (simp add: keeps_lists_def skip_installed_def log_msg_def Let_def)

lemma keeps_lists_not_found: "keeps_lists s (not_found nm s)"
  by (simp add: keeps_lists_def not_found_def)

lemma keeps_lists_error: "keeps_lists s (s\<lparr>error' := e\<rparr>)"
  by (simp add: keeps_lists_def)

lemma keeps_lists_satisfied: "keeps_lists s (s\<lparr>satisfied_deps' := satisfied_deps' s @ [d]\<rparr>)"
  by (simp add: keeps_lists_def)

lemma keeps_lists_repo: "keeps_lists s (s\<lparr>repo_deps' := repo_deps' s @ [d]\<rparr>)"
  by (simp add: keeps_lists_def)

text \<open>
  Whatever it returns, a call of \<^verbatim>\<open>dfs\<close> and a run of its second loop leave the three
  lists as extensions of what they were: a failure removes nothing.
\<close>

lemma lists_grow:
  "dfs E k nm s = Some (b, s') \<Longrightarrow> keeps_lists s s'"
  "classify E k nm deps s = Some (b, s') \<Longrightarrow> keeps_lists s s'"
proof (induction rule: dfs_classify_result_induct)
  case (visited k nm s)
  show ?case by (rule keeps_lists_refl)
next
  case (in_stack k nm s)
  show ?case by (rule keeps_lists_error)
next
  case (not_found k nm s)
  show ?case
    by (rule keeps_lists_trans [OF keeps_lists_enter_stack keeps_lists_not_found])
next
  case (installed k nm s p s2)
  show ?case
    by (rule keeps_lists_trans [OF keeps_lists_enter_stack
          keeps_lists_trans [OF keeps_lists_fetch_info [OF installed(3)]
            keeps_lists_skip_installed]])
next
  case (resolved k nm s p s2 s3)
  show ?case
    by (rule keeps_lists_trans [OF keeps_lists_enter_stack
          keeps_lists_trans [OF keeps_lists_fetch_info [OF resolved(3)]
            keeps_lists_trans [OF keeps_lists_prefetch
              keeps_lists_trans [OF resolved(6) keeps_lists_finish]]]])
next
  case (dep_failed k nm s p s2 s3)
  show ?case
    by (rule keeps_lists_trans [OF keeps_lists_enter_stack
          keeps_lists_trans [OF keeps_lists_fetch_info [OF dep_failed(3)]
            keeps_lists_trans [OF keeps_lists_prefetch dep_failed(6)]]])
next
  case (nil k nm s)
  show ?case by (rule keeps_lists_refl)
next
  case (satisfied k nm dep deps s b s')
  show ?case
    by (rule keeps_lists_trans [OF keeps_lists_satisfied satisfied(3)])
next
  case (in_repos k nm dep deps s b s')
  show ?case
    by (rule keeps_lists_trans [OF keeps_lists_repo in_repos(4)])
next
  case (missing k nm dep deps s)
  show ?case
    by (rule keeps_lists_trans [OF keeps_lists_find_provider keeps_lists_error])
next
  case (recursed k nm dep deps s t s1 s2 b s')
  show ?case
    by (rule keeps_lists_trans [OF keeps_lists_recursion_target [OF recursed(3)]
          keeps_lists_trans [OF recursed(5) recursed(7)]])
next
  case (failed k nm dep deps s t s1 s2)
  show ?case
    by (rule keeps_lists_trans [OF keeps_lists_recursion_target [OF failed(3)] failed(5)])
qed

text \<open>
  The loop of a call that returns: the members with which it gets to a dependency, and
  the members a recursive call for that dependency returns, are kept by the call.
\<close>

lemma classifies_kept:
  assumes c: "classifies E k nm s dep s3"
    and run: "dfs E (Suc k) nm s = Some (b, s')"
  shows "keeps_lists s3 s'"
    and "\<not> is_dep_satisfied E dep \<Longrightarrow> \<not> is_dep_in_repos E dep \<Longrightarrow>
         recursion_target E dep s3 = Some (t, s4) \<Longrightarrow>
           \<exists>b1 s5. dfs E k t s4 = Some (b1, s5) \<and> keeps_lists s5 s'"
proof -
  from c obtain p s2 before rest where
    nv: "nm \<notin> visited' s" and ns: "nm \<notin> in_stack' s"
    and fi: "fetch_info E nm (enter_stack nm s) = Some (p, s2)"
    and nsat: "\<not> is_dep_satisfied E (name p @ ''='' @ version p)"
    and deps: "depends p @ makedepends p = before @ dep # rest"
    and pre: "classify E k nm before (prefetch E (depends p @ makedepends p) s2) = Some (True, s3)"
    unfolding classifies_def by blast
  define sp where "sp = prefetch E (depends p @ makedepends p) s2"
  note pre' = pre [folded sp_def]
  have ca: "classify E k nm (depends p @ makedepends p) sp = classify E k nm (dep # rest) s3"
    by (simp add: deps classify_append pre')
  have "dfs E (Suc k) nm s =
     (case classify E k nm (dep # rest) s3 of
        None \<Rightarrow> None
      | Some (b, s3) \<Rightarrow> if b then Some (True, finish nm p s3) else Some (False, s3))"
    unfolding dfs_descend [OF nv ns fi nsat, folded sp_def] ca ..
  with run obtain b6 s6 where
    loop: "classify E k nm (dep # rest) s3 = Some (b6, s6)"
    and s': "s' = (if b6 then finish nm p s6 else s6)"
    by (auto split: option.splits if_splits)
  have fin: "keeps_lists s6 s'"
    by (simp add: s' keeps_lists_refl keeps_lists_finish)
  from keeps_lists_trans [OF lists_grow(2) [OF loop] fin]
  show "keeps_lists s3 s'" .
  assume nd: "\<not> is_dep_satisfied E dep" "\<not> is_dep_in_repos E dep"
    and tg: "recursion_target E dep s3 = Some (t, s4)"
  from loop obtain b1 s5 where
    inner: "dfs E k t s4 = Some (b1, s5)"
    and after: "if b1 then classify E k nm rest s5 = Some (b6, s6) else s6 = s5"
    by (auto simp: classify_recurse [OF nd tg] split: option.splits if_splits)
  have "keeps_lists s5 s6"
  proof (cases b1)
    case True
    with after show ?thesis by (simp add: lists_grow(2))
  next
    case False
    with after show ?thesis by (simp add: keeps_lists_refl)
  qed
  from inner keeps_lists_trans [OF this fin]
  show "\<exists>b1 s5. dfs E k t s4 = Some (b1, s5) \<and> keeps_lists s5 s'"
    by blast
qed

lemma reaches_kept:
  "reaches E k nm s path k' nm' s' \<Longrightarrow> dfs E k nm s = Some (b, s1) \<Longrightarrow>
     \<exists>b' s1'. dfs E k' nm' s' = Some (b', s1') \<and> keeps_lists s1' s1"
proof (induction arbitrary: b s1 rule: reaches.induct)
  case (here k nm s)
  then show ?case by (blast intro: keeps_lists_refl)
next
  case (through k nm s dep s3 t s4 path k' nm' s')
  from classifies_kept(2) [OF through.hyps(1) through.prems through.hyps(2,3,4)]
  obtain b1 s5 where inner: "dfs E k t s4 = Some (b1, s5)" and k5: "keeps_lists s5 s1"
    by blast
  from through.IH [OF inner] obtain b' s1' where
    "dfs E k' nm' s' = Some (b', s1')" "keeps_lists s1' s5"
    by blast
  with k5 show ?case by (blast intro: keeps_lists_trans)
qed

lemma first_occurrences_prefix:
  assumes "prefix xs ys"
  shows "prefix (first_occurrences xs) (first_occurrences ys)"
proof -
  from assms obtain zs where ys: "ys = xs @ zs" by (auto simp: prefix_def)
  have "prefix (first_occurrences xs) (first_occurrences (xs @ zs))"
  proof (induction zs rule: rev_induct)
    case Nil
    show ?case by simp
  next
    case (snoc z zs)
    have "prefix (first_occurrences (xs @ zs)) (first_occurrences ((xs @ zs) @ [z]))"
      unfolding first_occurrences_snoc by simp
    with snoc show ?case
      by (simp add: prefix_order.trans)
  qed
  with ys show ?thesis by simp
qed

lemma resolve_lists:
  assumes "resolve E fuel root s0 = Some (r, s2)"
  shows "\<exists>s1. dfs E fuel root (start root s0) = Some (ok r, s1) \<and> error r = error' s1
           \<and> aur_build_order r = first_occurrences (build_order' s1)
           \<and> repo_deps r = repo_deps' s1 \<and> satisfied_deps r = satisfied_deps' s1"
  using assms
  by (auto simp: resolve_def start_def Let_def dedupe_first_later
      split: option.splits prod.splits)

lemma kept_in_result_of:
  assumes "keeps_lists s s1"
    and "aur_build_order r = first_occurrences (build_order' s1)"
    and "repo_deps r = repo_deps' s1" and "satisfied_deps r = satisfied_deps' s1"
  shows "kept_in_result s r"
  using assms by (simp add: kept_in_result_def keeps_lists_def first_occurrences_prefix)


text \<open>
  C10. When \<^verbatim>\<open>resolve\<close> returns \<open>ok = False\<close> the result is not emptied. Its lists are
  the ones the failed traversal left, the build list deduplicated by build unit. And
  the failure has removed nothing from them: whatever a call of the traversal left in
  the three lists when it returned (on success, the package it appended after those of
  its subtree), and whatever they held when a loop got to a dependency, the result
  still holds, at the front of its lists.
\<close>

theorem failed_resolution_keeps_partial_lists:
  assumes "resolve E fuel root s0 = Some (r, s2)" and "\<not> ok r"
  shows "(\<exists>s1. dfs E fuel root (log_msg (''Resolving dependencies for '' @ root @ ''...'')
                                  (clear_members s0)) = Some (False, s1)
             \<and> error r = error' s1
             \<and> aur_build_order r = first_occurrences (build_order' s1)
             \<and> repo_deps r = repo_deps' s1
             \<and> satisfied_deps r = satisfied_deps' s1)
         \<and> (\<forall>path k nm s b s'.
               reaches E fuel root (start root s0) path k nm s \<longrightarrow>
               dfs E k nm s = Some (b, s') \<longrightarrow> kept_in_result s' r)
         \<and> (\<forall>path k nm s dep s3.
               reaches E fuel root (start root s0) path (Suc k) nm s \<longrightarrow>
               classifies E k nm s dep s3 \<longrightarrow> kept_in_result s3 r)"
proof -
  from resolve_lists [OF assms(1)] assms(2) obtain s1 where
    run: "dfs E fuel root (start root s0) = Some (False, s1)"
    and res: "error r = error' s1" "aur_build_order r = first_occurrences (build_order' s1)"
      "repo_deps r = repo_deps' s1" "satisfied_deps r = satisfied_deps' s1"
    by auto
  have a: "\<exists>s1. dfs E fuel root (log_msg (''Resolving dependencies for '' @ root @ ''...'')
                                  (clear_members s0)) = Some (False, s1)
             \<and> error r = error' s1
             \<and> aur_build_order r = first_occurrences (build_order' s1)
             \<and> repo_deps r = repo_deps' s1
             \<and> satisfied_deps r = satisfied_deps' s1"
    using run res unfolding start_def by blast
  have b: "kept_in_result s' r"
    if "reaches E fuel root (start root s0) path k nm s" and "dfs E k nm s = Some (b, s')"
    for path k nm s b s'
  proof -
    from reaches_kept [OF that(1) run] that(2) have "keeps_lists s' s1" by auto
    then show ?thesis by (rule kept_in_result_of) (rule res)+
  qed
  have c: "kept_in_result s3 r"
    if "reaches E fuel root (start root s0) path (Suc k) nm s" and "classifies E k nm s dep s3"
    for path k nm s dep s3
  proof -
    from reaches_kept [OF that(1) run] obtain b' s' where
      inner: "dfs E (Suc k) nm s = Some (b', s')" and k': "keeps_lists s' s1"
      by blast
    from keeps_lists_trans [OF classifies_kept(1) [OF that(2) inner] k']
    show ?thesis by (rule kept_in_result_of) (rule res)+
  qed
  from a b c show ?thesis by blast
qed


theorem failed_resolution_keeps_partial_lists_witness:
  "\<exists>r s2 s s'. resolve ex_nested (Suc (Suc (Suc 0))) ''r'' fresh_resolver = Some (r, s2) \<and> \<not> ok r
      \<and> error r = ''Dependency not found anywhere: missing (required by a)''
      \<and> map name (aur_build_order r) = [''u'', ''w'']
      \<and> repo_deps r = [''cmake''] \<and> satisfied_deps r = [''glibc'']
      \<and> reaches ex_nested (Suc (Suc (Suc 0))) ''r'' (start ''r'' fresh_resolver) [''r'', ''a'']
            (Suc 0) ''w'' s
      \<and> dfs ex_nested (Suc 0) ''w'' s = Some (True, s')
      \<and> map name (build_order' s') = [''u'', ''w'']
      \<and> repo_deps' s' = [''cmake''] \<and> satisfied_deps' s' = [''glibc'']
      \<and> kept_in_result s' r"
proof -
  let ?s0 = "start ''r'' fresh_resolver"
  let ?pr = "prefetch ex_nested [''u'', ''cmake'', ''a'']
               (snd (the (fetch_info ex_nested ''r'' (enter_stack ''r'' ?s0))))"
  let ?s3r = "snd (the (classify ex_nested (Suc (Suc 0)) ''r'' [''u'', ''cmake''] ?pr))"
  let ?pa = "prefetch ex_nested [''glibc'', ''w'', ''missing'']
               (snd (the (fetch_info ex_nested ''a'' (enter_stack ''a'' ?s3r))))"
  let ?s3a = "snd (the (classify ex_nested (Suc 0) ''a'' [''glibc''] ?pa))"
  let ?s' = "snd (the (dfs ex_nested (Suc 0) ''w'' ?s3a))"
  have preR: "classify ex_nested (Suc (Suc 0)) ''r'' [''u'', ''cmake''] ?pr = Some (True, ?s3r)"
    by (rule Some_the_True; code_simp)
  have cR: "classifies ex_nested (Suc (Suc 0)) ''r'' ?s0 ''a'' ?s3r"
  proof (rule classifies_first [where before = "[''u'', ''cmake'']" and rest = "[]"])
    show "classify ex_nested (Suc (Suc 0)) ''r'' [''u'', ''cmake'']
            (prefetch ex_nested ([''u'', ''cmake''] @ ''a'' # [])
               (snd (the (fetch_info ex_nested ''r'' (enter_stack ''r'' ?s0)))))
          = Some (True, ?s3r)"
      using preR by simp
  qed code_simp+
  have tR: "recursion_target ex_nested ''a'' ?s3r = Some (''a'', ?s3r)"
    by (rule recursion_target_cached; code_simp)
  have nR: "\<not> is_dep_satisfied ex_nested ''a''" "\<not> is_dep_in_repos ex_nested ''a''"
    by code_simp+
  have preA: "classify ex_nested (Suc 0) ''a'' [''glibc''] ?pa = Some (True, ?s3a)"
    by (rule Some_the_True; code_simp)
  have cA: "classifies ex_nested (Suc 0) ''a'' ?s3r ''w'' ?s3a"
  proof (rule classifies_first [where before = "[''glibc'']" and rest = "[''missing'']"])
    show "classify ex_nested (Suc 0) ''a'' [''glibc'']
            (prefetch ex_nested ([''glibc''] @ ''w'' # [''missing''])
               (snd (the (fetch_info ex_nested ''a'' (enter_stack ''a'' ?s3r)))))
          = Some (True, ?s3a)"
      using preA by simp
  qed code_simp+
  have tA: "recursion_target ex_nested ''w'' ?s3a = Some (''w'', ?s3a)"
    by (rule recursion_target_cached; code_simp)
  have nA: "\<not> is_dep_satisfied ex_nested ''w''" "\<not> is_dep_in_repos ex_nested ''w''"
    by code_simp+
  have reach: "reaches ex_nested (Suc (Suc (Suc 0))) ''r'' ?s0 [''r'', ''a''] (Suc 0) ''w'' ?s3a"
    by (rule reaches.through [OF cR nR tR], rule reaches.through [OF cA nA tA],
        rule reaches.here)
  have runw: "dfs ex_nested (Suc 0) ''w'' ?s3a = Some (True, ?s')"
    by (rule Some_the_True; code_simp)
  have lists: "map name (build_order' ?s') = [''u'', ''w'']"
    "repo_deps' ?s' = [''cmake'']" "satisfied_deps' ?s' = [''glibc'']"
    by code_simp+
  have "case resolve ex_nested (Suc (Suc (Suc 0))) ''r'' fresh_resolver of
          None \<Rightarrow> False
        | Some (r, s2) \<Rightarrow> \<not> ok r
            \<and> error r = ''Dependency not found anywhere: missing (required by a)''
            \<and> map name (aur_build_order r) = [''u'', ''w'']
            \<and> repo_deps r = [''cmake''] \<and> satisfied_deps r = [''glibc'']"
    by code_simp
  then obtain r s2 where
    run: "resolve ex_nested (Suc (Suc (Suc 0))) ''r'' fresh_resolver = Some (r, s2)"
    and nok: "\<not> ok r"
    and rest: "error r = ''Dependency not found anywhere: missing (required by a)''"
      "map name (aur_build_order r) = [''u'', ''w'']" "repo_deps r = [''cmake'']"
      "satisfied_deps r = [''glibc'']"
    by (auto split: option.splits)
  from failed_resolution_keeps_partial_lists [OF run nok]
  have "\<forall>path k nm s b s'.
          reaches ex_nested (Suc (Suc (Suc 0))) ''r'' ?s0 path k nm s \<longrightarrow>
          dfs ex_nested k nm s = Some (b, s') \<longrightarrow> kept_in_result s' r"
    by blast
  with reach runw have kept: "kept_in_result ?s' r" by blast
  show ?thesis
    by (rule exI [of _ r], rule exI [of _ s2], rule exI [of _ ?s3a], rule exI [of _ ?s'])
       (intro conjI run nok rest reach runw lists kept)
qed

subsection \<open>The members at the calls the traversal reaches\<close>

lemma find_provider_memo:
  assumes "memo_ok E s"
  shows "fst (find_provider E d s) = directory_provider E d"
    and "memo_ok E (snd (find_provider E d s))"
proof -
  have "fst (find_provider E d s) = directory_provider E d
      \<and> memo_ok E (snd (find_provider E d s))"
  proof (cases "provides_map' s d")
    case (Some m)
    with assms have "m = directory_provider E d" by (simp add: memo_ok_def)
    with Some assms show ?thesis by (simp add: find_provider_def)
  next
    case None
    show ?thesis
    proof (cases "find (provides_dep d) (search_provides E d)")
      case no: None
      with None assms show ?thesis
        by (simp add: find_provider_def directory_provider_def Let_def log_msg_def memo_ok_def)
    next
      case (Some p)
      with None assms show ?thesis
        by (simp add: find_provider_def directory_provider_def Let_def log_msg_def memo_ok_def)
    qed
  qed
  then show "fst (find_provider E d s) = directory_provider E d"
    and "memo_ok E (snd (find_provider E d s))"
    by simp_all
qed

lemma memo_ok_cong: "provides_map' s1 = provides_map' s \<Longrightarrow> memo_ok E s1 = memo_ok E s"
  by (simp add: memo_ok_def)

lemma memo_ok_fetch_info:
  "fetch_info E nm s = Some (p, s2) \<Longrightarrow> memo_ok E s2 = memo_ok E s"
  by (auto simp: fetch_info_def Let_def memo_ok_def split: option.splits if_splits)

lemma memo_ok_recursion_target:
  assumes "recursion_target E dep s = Some (t, s1)" and "memo_ok E s"
  shows "memo_ok E s1"
proof -
  from assms(1) have "s1 = s \<or> s1 = snd (find_provider E (strip_version dep) s)"
    by (auto simp: recursion_target_def split: if_splits prod.splits)
  with assms(2) show ?thesis
    by (auto simp: find_provider_memo)
qed

lemma memo_kept:
  "dfs E k nm s = Some (b, s') \<Longrightarrow> memo_ok E s \<longrightarrow> memo_ok E s'"
  "classify E k nm deps s = Some (b, s') \<Longrightarrow> memo_ok E s \<longrightarrow> memo_ok E s'"
proof (induction rule: dfs_classify_result_induct)
  case (visited k nm s)
  show ?case by simp
next
  case (in_stack k nm s)
  show ?case by (simp add: memo_ok_def)
next
  case (not_found k nm s)
  show ?case by (simp add: memo_ok_def not_found_def enter_stack_def log_msg_def)
next
  case (installed k nm s p s2)
  have "memo_ok E (skip_installed nm p s2) = memo_ok E s2"
    by (rule memo_ok_cong) (simp add: skip_installed_def log_msg_def Let_def)
  moreover have "memo_ok E (enter_stack nm s) = memo_ok E s"
    by (rule memo_ok_cong) (simp add: enter_stack_def log_msg_def)
  ultimately show ?case
    using memo_ok_fetch_info [OF installed(3)] by simp
next
  case (resolved k nm s p s2 s3)
  have "memo_ok E (finish nm p s3) = memo_ok E s3"
    by (rule memo_ok_cong) (simp add: finish_def log_msg_def)
  moreover have "memo_ok E (enter_stack nm s) = memo_ok E s"
    by (rule memo_ok_cong) (simp add: enter_stack_def log_msg_def)
  moreover have "memo_ok E (prefetch E (depends p @ makedepends p) s2) = memo_ok E s2"
    by (rule memo_ok_cong) (simp add: prefetch_def log_msg_def Let_def)
  ultimately show ?case
    using memo_ok_fetch_info [OF resolved(3)] resolved(6) by simp
next
  case (dep_failed k nm s p s2 s3)
  have "memo_ok E (enter_stack nm s) = memo_ok E s"
    by (rule memo_ok_cong) (simp add: enter_stack_def log_msg_def)
  moreover have "memo_ok E (prefetch E (depends p @ makedepends p) s2) = memo_ok E s2"
    by (rule memo_ok_cong) (simp add: prefetch_def log_msg_def Let_def)
  ultimately show ?case
    using memo_ok_fetch_info [OF dep_failed(3)] dep_failed(6) by simp
next
  case (nil k nm s)
  show ?case by simp
next
  case (satisfied k nm dep deps s b s')
  have "memo_ok E (s\<lparr>satisfied_deps' := satisfied_deps' s @ [dep]\<rparr>) = memo_ok E s"
    by (rule memo_ok_cong) simp
  with satisfied(3) show ?case by simp
next
  case (in_repos k nm dep deps s b s')
  have "memo_ok E (s\<lparr>repo_deps' := repo_deps' s @ [dep]\<rparr>) = memo_ok E s"
    by (rule memo_ok_cong) simp
  with in_repos(4) show ?case by simp
next
  case (missing k nm dep deps s)
  have "memo_ok E ((snd (find_provider E (strip_version dep) s))
          \<lparr>error' := ''Dependency not found anywhere: '' @ dep @ '' (required by '' @ nm @ '')''\<rparr>)
      = memo_ok E (snd (find_provider E (strip_version dep) s))"
    by (rule memo_ok_cong) simp
  then show ?case by (simp add: find_provider_memo)
next
  case (recursed k nm dep deps s t s1 s2 b s')
  with memo_ok_recursion_target [OF recursed(3)] show ?case by simp
next
  case (failed k nm dep deps s t s1 s2)
  with memo_ok_recursion_target [OF failed(3)] show ?case by simp
qed

lemma deps_done_subset:
  "deps_done E vis deps \<Longrightarrow> set before \<subseteq> set deps \<Longrightarrow> deps_done E vis before"
  unfolding deps_done_def by blast

text \<open>
  With a directory that answers consistently, the members with which the traversal
  enters a call, and those with which the loop of that call gets to a dependency, are
  as \<open>resolver_inv\<close> and \<open>memo_ok\<close> say.
\<close>

lemma classifies_members:
  assumes cons: "consistent_directory E" and c: "classifies E k nm s dep s3"
    and inv: "resolver_inv E s" and memo: "memo_ok E s"
  shows "resolver_inv E s3" and "memo_ok E s3"
proof -
  from c obtain p s2 before rest where
    nv: "nm \<notin> visited' s" and ns: "nm \<notin> in_stack' s"
    and fi: "fetch_info E nm (enter_stack nm s) = Some (p, s2)"
    and deps: "depends p @ makedepends p = before @ dep # rest"
    and pre: "classify E k nm before (prefetch E (depends p @ makedepends p) s2) = Some (True, s3)"
    unfolding classifies_def by blast
  note pf = resolver_inv_prefetched(1,2) [OF cons inv nv ns fi, of "depends p @ makedepends p"]
  from deps have "set before \<subseteq> set (depends p @ makedepends p)" by auto
  from deps_done_subset [OF pf(2) this] invariant_kept(2) [OF cons pre] pf(1)
  show "resolver_inv E s3" by simp
  have "memo_ok E (enter_stack nm s) = memo_ok E s"
    by (rule memo_ok_cong) (simp add: enter_stack_def log_msg_def)
  moreover have "memo_ok E (prefetch E (depends p @ makedepends p) s2) = memo_ok E s2"
    by (rule memo_ok_cong) (simp add: prefetch_def log_msg_def Let_def)
  ultimately show "memo_ok E s3"
    using memo_ok_fetch_info [OF fi] memo_kept(2) [OF pre] memo by simp
qed

lemma reaches_members:
  assumes cons: "consistent_directory E"
  shows "reaches E k nm s path k' nm' s' \<Longrightarrow> resolver_inv E s \<Longrightarrow> memo_ok E s \<Longrightarrow>
     resolver_inv E s' \<and> memo_ok E s'"
proof (induction rule: reaches.induct)
  case (here k nm s)
  then show ?case by simp
next
  case (through k nm s dep s3 t s4 path k' nm' s')
  note m3 = classifies_members [OF cons through.hyps(1) through.prems]
  from resolver_inv_target(1) [OF cons m3(1) through.hyps(4)]
    memo_ok_recursion_target [OF through.hyps(4) m3(2)] through.IH
  show ?case by simp
qed

lemma memo_ok_start: "memo_ok E (start root s0)"
  by (simp add: memo_ok_def start_def log_msg_def clear_members_def)

lemmas start_members = resolver_inv_start memo_ok_start

text \<open>
  So, in a run of \<^verbatim>\<open>resolve\<close> against such a directory: when the loop of a reached
  call gets to a dependency, every name that is visited or in progress has its package
  in the cache; and a dependency whose bare name the directory does not know and that no
  package of the directory provides has no package in the cache and no provider.
\<close>

lemma reached_names_cached:
  assumes "consistent_directory E"
    and "reaches E k root (start root s0) path (Suc j) nm s"
    and "classifies E j nm s dep s3"
    and "dep_name \<in> visited' s3 \<union> in_stack' s3"
  shows "cached_package s3 dep_name"
proof -
  from reaches_members [OF assms(1,2) start_members]
  have "resolver_inv E s" "memo_ok E s" by simp_all
  from classifies_members(1) [OF assms(1,3) this]
  have "cache_ok E s3" "visited' s3 \<union> in_stack' s3 \<subseteq> dom (aur_cache' s3)"
    by (simp_all add: resolver_inv_def)
  with assms(4) obtain p where "aur_cache' s3 dep_name = Some p" "name p \<noteq> []"
    unfolding cache_ok_def by blast
  then show ?thesis by (simp add: cached_package_def)
qed

lemma unknown_dependency_has_no_provider:
  assumes "consistent_directory E"
    and "reaches E k root (start root s0) path (Suc j) nm s"
    and "classifies E j nm s dep s3"
    and "\<not> known_name E (strip_version dep)"
    and "find (provides_dep (strip_version dep)) (search_provides E (strip_version dep)) = None"
  shows "\<not> cached_package s3 (strip_version dep)"
    and "fst (find_provider E (strip_version dep) s3) = []"
proof -
  from reaches_members [OF assms(1,2) start_members]
  have "resolver_inv E s" "memo_ok E s" by simp_all
  note m3 = classifies_members [OF assms(1,3) this]
  from m3(1) have "cache_ok E s3" by (simp add: resolver_inv_def)
  with assms(4) show "\<not> cached_package s3 (strip_version dep)"
    by (cases "aur_cache' s3 (strip_version dep)") (auto simp: cached_package_def cache_ok_def)
  from find_provider_memo(1) [OF m3(2)] assms(5)
  show "fst (find_provider E (strip_version dep) s3) = []"
    by (simp add: directory_provider_def)
qed

end
